theory Spec2Isabelle
  imports Main
begin

section \<open>Data model\<close>

text \<open>
  The message node of \<^verbatim>\<open>utils/types\<close>, with the fields the chat screen reads:
  \<^verbatim>\<open>id\<close>, \<^verbatim>\<open>parent\<close>, \<^verbatim>\<open>children\<close>, \<^verbatim>\<open>type\<close>, \<^verbatim>\<open>content\<close> and \<^verbatim>\<open>extra\<close>.
  Ids are JavaScript numbers holding integers. The source reads the parent as
  \<^verbatim>\<open>msg.parent ?? -1\<close>, so a parent may be absent (\<open>None\<close>).
  A text is a list of code units below 256.
\<close>

datatype msg_type = Root | UserTurn | AssistantTurn

record message =
  msg_id :: int
  parent :: "int option"
  children :: "int list"
  msg_type :: msg_type
  content :: string
  extra :: "string list"

text \<open>The display entry \<^verbatim>\<open>MessageDisplay\<close>; \<^verbatim>\<open>isPending\<close> is an optional field.\<close>

record MessageDisplay =
  msg :: message
  siblingLeafNodeIds :: "int list"
  siblingCurrIdx :: int
  isPending :: "bool option"

type_synonym node_map = "int \<rightharpoonup> message"

section \<open>The path resolver of ChatScreen.tsx\<close>

text \<open>\<^verbatim>\<open>x ?? -1\<close> on an id that may be absent.\<close>

definition orMinusOne :: "int option \<Rightarrow> int" where
  "orMinusOne x = (case x of None \<Rightarrow> - 1 | Some v \<Rightarrow> v)"

text \<open>\<^verbatim>\<open>xs.at(-1)\<close>: the last element, undefined on the empty array.\<close>

definition atLast :: "'a list \<Rightarrow> 'a option" where
  "atLast xs = (if xs = [] then None else Some (last xs))"

text \<open>
  \<^verbatim>\<open>const nodeMap = new Map(); for (const msg of msgs) nodeMap.set(msg.id, msg);\<close>
  A later message with the same id replaces an earlier one.
\<close>

definition nodeMap :: "message list \<Rightarrow> node_map" where
  "nodeMap msgs = fold (\<lambda>m nm. nm(msg_id m \<mapsto> m)) msgs Map.empty"

text \<open>
  The \<^verbatim>\<open>while (currNode)\<close> loop of \<^verbatim>\<open>findLeafNode\<close>. The loop has no bound in the
  source; \<open>None\<close> is the run that never leaves it.
\<close>

partial_function (option) findLeafNode_loop :: "node_map \<Rightarrow> message option \<Rightarrow> message option option" where
  "findLeafNode_loop nm currNode =
     (case currNode of
        None \<Rightarrow> Some None
      | Some n \<Rightarrow>
          if length (children n) = 0 then Some (Some n)
          else findLeafNode_loop nm (nm (orMinusOne (atLast (children n)))))"

text \<open>\<^verbatim>\<open>return currNode?.id ?? -1\<close> after the loop.\<close>

definition findLeafNode :: "node_map \<Rightarrow> int \<Rightarrow> int option" where
  "findLeafNode nm msgId =
     map_option (\<lambda>currNode. orMinusOne (map_option msg_id currNode))
       (findLeafNode_loop nm (nm msgId))"

text \<open>
  Last-child links are ranked by \<open>h\<close>: every step of the descent from a node with children
  to its last child, when that child is in the map, lowers \<open>h\<close>. A finite forest is ranked
  by the height of its nodes.
\<close>

definition descent_ranked :: "(int \<Rightarrow> nat) \<Rightarrow> node_map \<Rightarrow> bool" where
  "descent_ranked h nm =
     (\<forall>i n c. nm i = Some n \<longrightarrow> children n \<noteq> [] \<longrightarrow> nm (last (children n)) = Some c
        \<longrightarrow> h (msg_id c) < h (msg_id n))"

text \<open>A node that lists itself as its only child, and the three-node conversation of the spec.\<close>

definition selfChild :: message where
  "selfChild = \<lparr>msg_id = 1, parent = None, children = [1], msg_type = UserTurn,
                content = ''a'', extra = []\<rparr>"

definition root0 :: message where
  "root0 = \<lparr>msg_id = 0, parent = None, children = [1], msg_type = Root,
            content = [], extra = []\<rparr>"

definition user1 :: message where
  "user1 = \<lparr>msg_id = 1, parent = Some 0, children = [2], msg_type = UserTurn,
            content = ''hi'', extra = []\<rparr>"

definition assistant2 :: message where
  "assistant2 = \<lparr>msg_id = 2, parent = Some 1, children = [], msg_type = AssistantTurn,
                 content = ''hello'', extra = []\<rparr>"

definition chat3 :: "message list" where
  "chat3 = [root0, user1, assistant2]"

text \<open>
  \<^verbatim>\<open>siblings.indexOf(msg.id)\<close>: the first position holding the id, and \<open>-1\<close> when no
  position does.
\<close>

fun indexOf_from :: "int list \<Rightarrow> int \<Rightarrow> int \<Rightarrow> int" where
  "indexOf_from [] x k = - 1"
| "indexOf_from (y # ys) x k = (if y = x then k else indexOf_from ys x (k + 1))"

definition indexOf :: "int list \<Rightarrow> int \<Rightarrow> int" where
  "indexOf xs x = indexOf_from xs x 0"

text \<open>
  The \<^verbatim>\<open>for (const msg of currNodes)\<close> loop of \<^verbatim>\<open>getListMessageDisplay\<close>, with the array
  \<^verbatim>\<open>res\<close> passed along. \<^verbatim>\<open>siblings.map(findLeafNode)\<close> returns once every call has
  returned.
\<close>

fun display_loop :: "node_map \<Rightarrow> message list \<Rightarrow> MessageDisplay list \<Rightarrow> MessageDisplay list option" where
  "display_loop nm [] res = Some res"
| "display_loop nm (m # rest) res =
     (case nm (orMinusOne (parent m)) of
        None \<Rightarrow> display_loop nm rest res
      | Some parentNode \<Rightarrow>
          (let siblings = children parentNode in
           if msg_type m \<noteq> Root then
             (case those (map (findLeafNode nm) siblings) of
                None \<Rightarrow> None
              | Some leaves \<Rightarrow>
                  display_loop nm rest
                    (res @ [\<lparr>msg = m, siblingLeafNodeIds = leaves,
                             siblingCurrIdx = indexOf siblings (msg_id m),
                             isPending = None\<rparr>]))
           else display_loop nm rest res))"

text \<open>
  \<^verbatim>\<open>getListMessageDisplay(msgs, leafNodeId)\<close>. Its first line calls
  \<^verbatim>\<open>StorageUtils.filterByLeafNodeId(msgs, leafNodeId, true)\<close>, a function of
  \<^verbatim>\<open>utils/storage\<close>; it is the parameter \<open>flt\<close> here, applied to the first two
  arguments, and \<open>None\<close> is the call that does not return.
\<close>

definition getListMessageDisplay ::
  "(message list \<Rightarrow> int \<Rightarrow> message list option) \<Rightarrow> message list \<Rightarrow> int \<Rightarrow> MessageDisplay list option" where
  "getListMessageDisplay flt msgs leafNodeId =
     (case flt msgs leafNodeId of
        None \<Rightarrow> None
      | Some currNodes \<Rightarrow> display_loop (nodeMap msgs) currNodes [])"

text \<open>The test of the loop body: a node is shown when its parent is in the map and it is no root.\<close>

definition shown :: "node_map \<Rightarrow> message \<Rightarrow> bool" where
  "shown nm m = (nm (orMinusOne (parent m)) \<noteq> None \<and> msg_type m \<noteq> Root)"

subsection \<open>The path of a leaf\<close>

text \<open>
  Modelled from the spec: \<^verbatim>\<open>StorageUtils.filterByLeafNodeId\<close> (\<^verbatim>\<open>utils/storage\<close>) is
  missing from the sources at hand. Steps 1 and 2 of the path resolver (spec 4.2) say what it
  returns when roots are included: the "none" sentinel (the \<open>-1\<close> that the chat screen
  stores in \<^verbatim>\<open>currNodeId\<close>) is resolved to the natural leaf, found from the root by the
  last-child descent; then the walk goes upward from the leaf over the parent links,
  collecting nodes, and the collected nodes are reversed. The root is the first root-type
  message; without one, the sentinel resolves to no node.
\<close>

definition resolveLeaf :: "message list \<Rightarrow> int \<Rightarrow> int option" where
  "resolveLeaf msgs leafId =
     (if leafId = - 1 then
        (case find (\<lambda>m. msg_type m = Root) msgs of
           None \<Rightarrow> Some (- 1)
         | Some r \<Rightarrow> findLeafNode (nodeMap msgs) (msg_id r))
      else Some leafId)"

text \<open>
  Modelled from the spec: the upward walk of step 2, from a node over the parent links until
  a parent id is not in the map, collecting the nodes. \<open>None\<close> is the walk that never
  ends.
\<close>

partial_function (option) walkUp :: "node_map \<Rightarrow> message option \<Rightarrow> message list \<Rightarrow> message list option" where
  "walkUp nm currNode collected =
     (case currNode of
        None \<Rightarrow> Some collected
      | Some n \<Rightarrow> walkUp nm (nm (orMinusOne (parent n))) (collected @ [n]))"

text \<open>
  Modelled from the spec: steps 1 and 2 together, as the call
  \<^verbatim>\<open>filterByLeafNodeId(msgs, leafNodeId, true)\<close> of the chat screen uses them: the
  collected nodes, reversed into root-to-leaf order.
\<close>

definition filterByLeafNodeId :: "message list \<Rightarrow> int \<Rightarrow> message list option" where
  "filterByLeafNodeId msgs leafNodeId =
     (case resolveLeaf msgs leafNodeId of
        None \<Rightarrow> None
      | Some leaf \<Rightarrow> map_option rev (walkUp (nodeMap msgs) (nodeMap msgs leaf) []))"

text \<open>
  Parent links are ranked by \<open>d\<close>: the step from a node to its parent, when the parent is in
  the map, lowers \<open>d\<close>. A forest is ranked by the depth of its nodes.
\<close>

definition ascent_ranked :: "(int \<Rightarrow> nat) \<Rightarrow> node_map \<Rightarrow> bool" where
  "ascent_ranked d nm =
     (\<forall>i n p. nm i = Some n \<longrightarrow> nm (orMinusOne (parent n)) = Some p
        \<longrightarrow> d (msg_id p) < d (msg_id n))"

text \<open>\<open>ancestor nm a n\<close>: \<open>a\<close> is reached from \<open>n\<close> by one or more parent links of the map.\<close>

inductive ancestor :: "node_map \<Rightarrow> message \<Rightarrow> message \<Rightarrow> bool" for nm :: node_map where
  parent_link: "nm (orMinusOne (parent n)) = Some a \<Longrightarrow> ancestor nm a n"
| further_up: "nm (orMinusOne (parent n)) = Some p \<Longrightarrow> ancestor nm a p \<Longrightarrow> ancestor nm a n"

text \<open>The upward chain of a node: each element is the parent of the one before it.\<close>

fun up_chain :: "node_map \<Rightarrow> message option \<Rightarrow> message list \<Rightarrow> bool" where
  "up_chain nm c [] = (c = None)"
| "up_chain nm c (n # rest) = (c = Some n \<and> up_chain nm (nm (orMinusOne (parent n))) rest)"

text \<open>
  The natural leaf under an id, in the words of the spec (4.2, steps 1 and 4): starting from
  the node, repeatedly follow the last child in the node's children until a childless node is
  reached. \<open>natural_leaf nm i y\<close>: the descent from \<open>i\<close> reaches a childless node with id
  \<open>y\<close>. \<open>falls_off nm i\<close>: the descent from \<open>i\<close> meets an id that is not in the map.
\<close>

inductive natural_leaf :: "node_map \<Rightarrow> int \<Rightarrow> int \<Rightarrow> bool" for nm :: node_map where
  childless: "nm i = Some n \<Longrightarrow> children n = [] \<Longrightarrow> natural_leaf nm i (msg_id n)"
| last_child: "nm i = Some n \<Longrightarrow> children n \<noteq> [] \<Longrightarrow>
     natural_leaf nm (last (children n)) y \<Longrightarrow> natural_leaf nm i y"

inductive falls_off :: "node_map \<Rightarrow> int \<Rightarrow> bool" for nm :: node_map where
  not_in_map: "nm i = None \<Longrightarrow> falls_off nm i"
| below: "nm i = Some n \<Longrightarrow> children n \<noteq> [] \<Longrightarrow>
     falls_off nm (last (children n)) \<Longrightarrow> falls_off nm i"

text \<open>
  A root whose only listed child is an id that no message has, and a user message that names
  the root as parent.
\<close>

definition looseRoot :: message where
  "looseRoot = \<lparr>msg_id = 0, parent = None, children = [5], msg_type = Root,
                content = [], extra = []\<rparr>"

definition unlisted :: "message list" where
  "unlisted = [looseRoot, user1]"

section \<open>The chat screen component\<close>

text \<open>
  \<^verbatim>\<open>viewingChat\<close>, with the two fields the component reads: \<^verbatim>\<open>conv.id\<close> and
  \<^verbatim>\<open>messages\<close>.
\<close>

record viewing_chat =
  conv_id :: string
  chat_messages :: "message list"

text \<open>\<^verbatim>\<open>currConvId ?? ''\<close>.\<close>

definition orEmpty :: "string option \<Rightarrow> string" where
  "orEmpty c = (case c of None \<Rightarrow> [] | Some v \<Rightarrow> v)"

text \<open>\<^verbatim>\<open>const currConvId = viewingChat?.conv.id ?? null\<close>.\<close>

definition currConvId :: "viewing_chat option \<Rightarrow> string option" where
  "currConvId viewingChat = map_option conv_id viewingChat"

text \<open>
  \<^verbatim>\<open>const messages = useMemo(...)\<close>: the empty list without a chat to view, the resolved
  path otherwise.
\<close>

definition chatMessages ::
  "(message list \<Rightarrow> int \<Rightarrow> message list option) \<Rightarrow> viewing_chat option \<Rightarrow> int \<Rightarrow> MessageDisplay list option" where
  "chatMessages flt viewingChat currNodeId =
     (case viewingChat of
        None \<Rightarrow> Some []
      | Some vc \<Rightarrow> getListMessageDisplay flt (chat_messages vc) currNodeId)"

text \<open>\<^verbatim>\<open>const pendingMsg = pendingMessages[currConvId ?? '']\<close>.\<close>

definition pendingMsg :: "(string \<rightharpoonup> message) \<Rightarrow> viewing_chat option \<Rightarrow> message option" where
  "pendingMsg pendingMessages viewingChat = pendingMessages (orEmpty (currConvId viewingChat))"

text \<open>\<^verbatim>\<open>messages.at(-1)?.msg.id\<close>: undefined on the empty list.\<close>

definition lastMsgId :: "MessageDisplay list \<Rightarrow> int option" where
  "lastMsgId messages = map_option (\<lambda>e. msg_id (msg e)) (atLast messages)"

text \<open>
  \<^verbatim>\<open>pendingMsgDisplay\<close>: \<^verbatim>\<open>pendingMsg && messages.at(-1)?.msg.id !== pendingMsg.id ? [...] : []\<close>.
\<close>

definition pendingMsgDisplay :: "MessageDisplay list \<Rightarrow> message option \<Rightarrow> MessageDisplay list" where
  "pendingMsgDisplay messages pm =
     (case pm of
        None \<Rightarrow> []
      | Some p \<Rightarrow>
          if lastMsgId messages \<noteq> Some (msg_id p)
          then [\<lparr>msg = p, siblingLeafNodeIds = [], siblingCurrIdx = 0, isPending = Some True\<rparr>]
          else [])"

text \<open>The list that is rendered: \<^verbatim>\<open>[...messages, ...pendingMsgDisplay]\<close>.\<close>

definition renderedMessages ::
  "(message list \<Rightarrow> int \<Rightarrow> message list option) \<Rightarrow> viewing_chat option \<Rightarrow>
   (string \<rightharpoonup> message) \<Rightarrow> int \<Rightarrow> MessageDisplay list option" where
  "renderedMessages flt viewingChat pendingMessages currNodeId =
     map_option
       (\<lambda>messages. messages @ pendingMsgDisplay messages (pendingMsg pendingMessages viewingChat))
       (chatMessages flt viewingChat currNodeId)"

subsection \<open>Sending a new message\<close>

text \<open>
  What \<^verbatim>\<open>sendNewMessage\<close> reads and writes: the text of the textarea, the state
  \<^verbatim>\<open>currNodeId\<close>, the items of the extra context, and the calls it makes, recorded in
  the order they are made.
\<close>

datatype effect =
    ToastError string
  | SetValue string
  | ScrollToBottom
  | SetCurrNodeId int
  | SendMessage "string option" "int option" string "string list"
  | ClearItems

record screen =
  textarea_value :: string
  currNodeId :: int
  extraContext_items :: "string list"
  effects :: "effect list"

definition toast_error :: "string \<Rightarrow> screen \<Rightarrow> screen" where
  "toast_error text s = s\<lparr>effects := effects s @ [ToastError text]\<rparr>"

definition setValue :: "string \<Rightarrow> screen \<Rightarrow> screen" where
  "setValue v s = s\<lparr>textarea_value := v, effects := effects s @ [SetValue v]\<rparr>"

definition scrollToBottom :: "screen \<Rightarrow> screen" where
  "scrollToBottom s = s\<lparr>effects := effects s @ [ScrollToBottom]\<rparr>"

definition setCurrNodeId :: "int \<Rightarrow> screen \<Rightarrow> screen" where
  "setCurrNodeId i s = s\<lparr>currNodeId := i, effects := effects s @ [SetCurrNodeId i]\<rparr>"

definition clearItems :: "screen \<Rightarrow> screen" where
  "clearItems s = s\<lparr>extraContext_items := [], effects := effects s @ [ClearItems]\<rparr>"

text \<open>
  \<^verbatim>\<open>onChunk\<close>: \<^verbatim>\<open>if (currLeafNodeId) setCurrNodeId(currLeafNodeId)\<close>; an absent id and
  the id 0 are falsy.
\<close>

definition onChunk :: "int option \<Rightarrow> screen \<Rightarrow> screen" where
  "onChunk currLeafNodeId s =
     (case currLeafNodeId of
        None \<Rightarrow> s
      | Some i \<Rightarrow> if i \<noteq> 0 then setCurrNodeId i s else s)"

text \<open>
  \<^verbatim>\<open>String.prototype.trim\<close> on code units below 256: the white space and line
  terminators of ECMAScript in that range are 9 to 13, 32 and 160.
\<close>

definition isWhiteSpace :: "char \<Rightarrow> bool" where
  "isWhiteSpace c = (of_char c \<in> {9, 10, 11, 12, 13, 32, 160 :: nat})"

definition trim :: "string \<Rightarrow> string" where
  "trim s = rev (dropWhile isWhiteSpace (rev (dropWhile isWhiteSpace s)))"

text \<open>
  \<^verbatim>\<open>sendNewMessage\<close>. The context functions \<^verbatim>\<open>isGenerating\<close> and \<^verbatim>\<open>sendMessage\<close> come
  from \<^verbatim>\<open>useAppContext\<close> and are parameters. \<open>sendMessage\<close> stands for one awaited call:
  it gives the boolean its promise resolves to and the arguments of the \<^verbatim>\<open>onChunk\<close>
  calls it made meanwhile. \<open>messages\<close> is the list of the current render.
\<close>

definition sendNewMessage ::
  "(string \<Rightarrow> bool) \<Rightarrow>
   (string option \<Rightarrow> int option \<Rightarrow> string \<Rightarrow> string list \<Rightarrow> bool \<times> int option list) \<Rightarrow>
   string option \<Rightarrow> MessageDisplay list \<Rightarrow> screen \<Rightarrow> screen" where
  "sendNewMessage isGenerating sendMessage convId messages s =
     (let lastInpMsg = textarea_value s in
      if length (trim lastInpMsg) = 0 \<or> isGenerating (orEmpty convId)
      then toast_error ''Please enter a message'' s
      else
        let s1 = setValue [] s;
            s2 = scrollToBottom s1;
            s3 = setCurrNodeId (- 1) s2;
            lastMsgNodeId = lastMsgId messages;
            items = extraContext_items s3;
            (sent, chunks) = sendMessage convId lastMsgNodeId lastInpMsg items;
            s4 = s3\<lparr>effects := effects s3 @ [SendMessage convId lastMsgNodeId lastInpMsg items]\<rparr>;
            s5 = fold onChunk chunks s4;
            s6 = (if \<not> sent then setValue lastInpMsg s5 else s5)
        in clearItems s6)"

text \<open>A screen with a typed draft and one attachment, and a \<^verbatim>\<open>sendMessage\<close> that fails.\<close>

definition draftScreen :: screen where
  "draftScreen = \<lparr>textarea_value = ''hi there'', currNodeId = 2,
                  extraContext_items = [''notes.txt''], effects = []\<rparr>"

definition failingSend :: "string option \<Rightarrow> int option \<Rightarrow> string \<Rightarrow> string list \<Rightarrow> bool \<times> int option list" where
  "failingSend convId leaf text items = (False, [Some 5])"

text \<open>The three-node conversation on view, with a pending answer that is not yet in its path.\<close>

definition viewChat3 :: viewing_chat where
  "viewChat3 = \<lparr>conv_id = ''c1'', chat_messages = chat3\<rparr>"

definition pending3 :: message where
  "pending3 = \<lparr>msg_id = 3, parent = Some 1, children = [], msg_type = AssistantTurn,
               content = ''Hel'', extra = []\<rparr>"

section \<open>Message store, streaming assembler and generation controller\<close>

text \<open>
  Modelled from the spec: the message store (\<^verbatim>\<open>utils/storage\<close>) and the generation code
  behind \<^verbatim>\<open>useAppContext\<close> (\<^verbatim>\<open>sendMessage\<close>, \<^verbatim>\<open>replaceMessageAndGenerate\<close>,
  \<^verbatim>\<open>isGenerating\<close>, \<^verbatim>\<open>stopGenerating\<close>, \<^verbatim>\<open>pendingMessages\<close>) are missing from the
  sources at hand; the chat screen only calls them. The definitions of this section follow
  sections 3, 4.1, 4.3, 4.4 and 7 of the spec.
\<close>

text \<open>
  Modelled from the spec: the error taxonomy of section 7, without \<open>OrphanNode\<close>, which
  the path resolver handles by exclusion, and the states of an assembler (4.3).
\<close>

datatype gen_error = InvalidParent | AlreadyGenerating | NetworkError | InvalidResponse | Aborted

datatype phase = Idle | Streaming | Committed | Cancelled | Failed

text \<open>
  Modelled from the spec: \<^verbatim>\<open>append(conversationId, parentId, node)\<close> of the message store
  (4.1), on the messages of one conversation. It fails with \<open>InvalidParent\<close> when the
  parent id is not in the conversation; otherwise the node becomes a new leaf under the
  parent, and its id is appended to the parent's children (3: regenerations append, they do
  not reorder).
\<close>

definition appendMsg :: "message list \<Rightarrow> int \<Rightarrow> message \<Rightarrow> gen_error + message list" where
  "appendMsg msgs parentId node =
     (if nodeMap msgs parentId = None then Inl InvalidParent
      else Inr (map (\<lambda>m. if msg_id m = parentId
                          then m\<lparr>children := children m @ [msg_id node]\<rparr> else m) msgs
                @ [node\<lparr>parent := Some parentId\<rparr>]))"

text \<open>
  Modelled from the spec: one streaming assembler (4.3) with its state, the conversation it
  belongs to, the parent it generates under and its pending node; and the generation
  controller (4.4) with the store partitioned by conversation id, the assemblers it has
  created, the next id to assign (3: ids are assigned monotonically and never reused) and
  the errors the user was notified of (7).
\<close>

record assembler =
  asm_conv :: string
  asm_phase :: phase
  asm_parent :: int
  asm_pending :: message

record controller =
  store :: "string \<Rightarrow> message list"
  assemblers :: "assembler list"
  next_id :: int
  notified :: "gen_error list"

text \<open>Modelled from the spec: an assembler of conversation \<open>c\<close> in state \<open>Streaming\<close>.\<close>

definition streaming :: "string \<Rightarrow> assembler \<Rightarrow> bool" where
  "streaming c a = (asm_conv a = c \<and> asm_phase a = Streaming)"

text \<open>Modelled from the spec: \<^verbatim>\<open>isGenerating(conversationId)\<close> (4.4).\<close>

definition isGenerating :: "controller \<Rightarrow> string \<Rightarrow> bool" where
  "isGenerating ctl c = list_ex (streaming c) (assemblers ctl)"

text \<open>
  Modelled from the spec: \<^verbatim>\<open>start(conversationId, parentId, promptContent, extraItems)\<close>
  (4.3, 4.4). A start for a conversation with an active stream is rejected with
  \<open>AlreadyGenerating\<close>: nothing changes and the user is notified. Otherwise a pending node
  with a reserved id is created under the parent and the assembler is \<open>Streaming\<close>. The
  prompt and the extra items go to the transport.
\<close>

definition start ::
  "controller \<Rightarrow> string \<Rightarrow> int \<Rightarrow> string \<Rightarrow> string list \<Rightarrow> (gen_error + int) \<times> controller" where
  "start ctl c parentId promptContent extraItems =
     (if isGenerating ctl c
      then (Inl AlreadyGenerating, ctl\<lparr>notified := notified ctl @ [AlreadyGenerating]\<rparr>)
      else
        let pendingId = next_id ctl;
            pendingNode = \<lparr>msg_id = pendingId, parent = Some parentId, children = [],
                           msg_type = AssistantTurn, content = [], extra = []\<rparr>
        in (Inr pendingId,
            ctl\<lparr>assemblers := assemblers ctl @
                   [\<lparr>asm_conv = c, asm_phase = Streaming, asm_parent = parentId,
                     asm_pending = pendingNode\<rparr>],
                 next_id := pendingId + 1\<rparr>))"

text \<open>
  Modelled from the spec: an incoming chunk (4.3) appends its text to the pending content
  and gives the pending node's id to the caller's callback.
\<close>

definition addDelta :: "string \<Rightarrow> assembler \<Rightarrow> assembler" where
  "addDelta delta a = a\<lparr>asm_pending := (asm_pending a)\<lparr>content := content (asm_pending a) @ delta\<rparr>\<rparr>"

definition chunk :: "controller \<Rightarrow> string \<Rightarrow> string \<Rightarrow> int option \<times> controller" where
  "chunk ctl c delta =
     (map_option (\<lambda>a. msg_id (asm_pending a)) (find (streaming c) (assemblers ctl)),
      ctl\<lparr>assemblers := map (\<lambda>a. if streaming c a then addDelta delta a else a) (assemblers ctl)\<rparr>)"

text \<open>
  Modelled from the spec: \<^verbatim>\<open>commit()\<close> and \<^verbatim>\<open>cancel()\<close> (4.3). Both append the pending
  node, with the content built so far, to the store as a real child; the assembler ends
  \<open>Committed\<close> or \<open>Cancelled\<close>. \<open>InvalidParent\<close> from the store is the fatal assertion
  of section 7. Without an active stream there is nothing to do.
\<close>

definition endPhase :: "string \<Rightarrow> phase \<Rightarrow> assembler \<Rightarrow> assembler" where
  "endPhase c final a = (if streaming c a then a\<lparr>asm_phase := final\<rparr> else a)"

definition promote :: "phase \<Rightarrow> controller \<Rightarrow> string \<Rightarrow> gen_error + controller" where
  "promote final ctl c =
     (case find (streaming c) (assemblers ctl) of
        None \<Rightarrow> Inr ctl
      | Some a \<Rightarrow>
          (case appendMsg (store ctl c) (asm_parent a) (asm_pending a) of
             Inl e \<Rightarrow> Inl e
           | Inr msgs \<Rightarrow>
               Inr (ctl\<lparr>store := (store ctl)(c := msgs),
                        assemblers := map (endPhase c final) (assemblers ctl)\<rparr>)))"

definition commit :: "controller \<Rightarrow> string \<Rightarrow> gen_error + controller" where
  "commit ctl c = promote Committed ctl c"

definition cancel :: "controller \<Rightarrow> string \<Rightarrow> gen_error + controller" where
  "cancel ctl c = promote Cancelled ctl c"

text \<open>
  Modelled from the spec: \<^verbatim>\<open>fail(reason)\<close> (4.3). The pending node is discarded, not
  committed, and the user is notified of the reason.
\<close>

definition fail :: "controller \<Rightarrow> string \<Rightarrow> gen_error \<Rightarrow> controller" where
  "fail ctl c reason =
     (if isGenerating ctl c
      then ctl\<lparr>assemblers := map (endPhase c Failed) (assemblers ctl),
               notified := notified ctl @ [reason]\<rparr>
      else ctl)"

text \<open>
  Modelled from the spec: the discrete events the controller reacts to (5), one at a time,
  and the state after an event. A fatal assertion leaves the state as it is.
\<close>

datatype event =
    Start string int string "string list"
  | Chunk string string
  | Commit string
  | Cancel string
  | Fail string gen_error

fun step :: "event \<Rightarrow> controller \<Rightarrow> controller" where
  "step (Start c parentId promptContent extraItems) ctl =
     snd (start ctl c parentId promptContent extraItems)"
| "step (Chunk c delta) ctl = snd (chunk ctl c delta)"
| "step (Commit c) ctl = (case commit ctl c of Inl e \<Rightarrow> ctl | Inr ctl' \<Rightarrow> ctl')"
| "step (Cancel c) ctl = (case cancel ctl c of Inl e \<Rightarrow> ctl | Inr ctl' \<Rightarrow> ctl')"
| "step (Fail c reason) ctl = fail ctl c reason"

text \<open>
  Modelled from the spec: an event that ends the stream of conversation \<open>c\<close>: its
  commit, cancel or fail.
\<close>

fun ends_stream :: "string \<Rightarrow> event \<Rightarrow> bool" where
  "ends_stream c (Commit c') = (c' = c)"
| "ends_stream c (Cancel c') = (c' = c)"
| "ends_stream c (Fail c' reason) = (c' = c)"
| "ends_stream c e = False"

text \<open>The assemblers of a conversation that are streaming.\<close>

definition streams :: "controller \<Rightarrow> string \<Rightarrow> assembler list" where
  "streams ctl c = filter (streaming c) (assemblers ctl)"

text \<open>A controller holding the three-node conversation under the id \<open>c1\<close>, nothing active.\<close>

definition ctl3 :: controller where
  "ctl3 = \<lparr>store = (\<lambda>c. if c = ''c1'' then chat3 else []), assemblers = [], next_id = 3,
           notified = []\<rparr>"

subsection \<open>Edit and regenerate\<close>








text \<open>A pending message whose id is that of the first displayed node of the conversation.\<close>

definition clashing1 :: message where
  "clashing1 = \<lparr>msg_id = 1, parent = Some 2, children = [], msg_type = AssistantTurn,
                content = ''Hel'', extra = []\<rparr>"


section \<open>The node map\<close>

lemma nodeMap_snoc: "nodeMap (msgs @ [m]) = (nodeMap msgs)(msg_id m \<mapsto> m)"
  by (simp add: nodeMap_def)

lemma nodeMap_key: "nodeMap msgs i = Some n \<Longrightarrow> msg_id n = i \<and> n \<in> set msgs"
proof (induction msgs arbitrary: n rule: rev_induct)
  case Nil
  then show ?case by (simp add: nodeMap_def)
next
  case (snoc m msgs)
  then show ?case by (auto simp: nodeMap_snoc split: if_splits)
qed

lemma nodeMap_chat3:
  "nodeMap chat3 = [0 \<mapsto> root0, 1 \<mapsto> user1, 2 \<mapsto> assistant2]"
  by (simp add: nodeMap_def chat3_def root0_def user1_def assistant2_def)

section \<open>findLeafNode\<close>

lemma findLeafNode_loop_absent: "findLeafNode_loop nm None = Some None"
  by (simp add: findLeafNode_loop.simps)

lemma findLeafNode_loop_leaf:
  "children n = [] \<Longrightarrow> findLeafNode_loop nm (Some n) = Some (Some n)"
  by (simp add: findLeafNode_loop.simps)

lemma findLeafNode_loop_step:
  "children n \<noteq> [] \<Longrightarrow>
   findLeafNode_loop nm (Some n) = findLeafNode_loop nm (nm (last (children n)))"
  by (subst findLeafNode_loop.simps) (simp add: atLast_def orMinusOne_def)

lemma findLeafNode_loop_returns:
  assumes "descent_ranked h nm" and "\<forall>n. currNode = Some n \<longrightarrow> n \<in> ran nm"
  shows "\<exists>r. findLeafNode_loop nm currNode = Some r"
  using assms(2)
proof (induction "case currNode of None \<Rightarrow> 0 | Some n \<Rightarrow> Suc (h (msg_id n))"
    arbitrary: currNode rule: less_induct)
  case less
  show ?case
  proof (cases currNode)
    case None
    then show ?thesis by (simp add: findLeafNode_loop_absent)
  next
    case (Some n)
    show ?thesis
    proof (cases "children n = []")
      case True
      with Some show ?thesis by (simp add: findLeafNode_loop_leaf)
    next
      case False
      let ?next = "nm (last (children n))"
      from Some less.prems obtain i where i: "nm i = Some n" by (auto simp: ran_def)
      have smaller: "(case ?next of None \<Rightarrow> 0 | Some c \<Rightarrow> Suc (h (msg_id c)))
                       < (case currNode of None \<Rightarrow> 0 | Some n \<Rightarrow> Suc (h (msg_id n)))"
        using assms(1) i False Some by (auto simp: descent_ranked_def split: option.splits)
      have "\<forall>c. ?next = Some c \<longrightarrow> c \<in> ran nm" by (auto simp: ran_def)
      from less.hyps [OF smaller this] Some False show ?thesis
        by (simp add: findLeafNode_loop_step)
    qed
  qed
qed

lemma findLeafNode_returns:
  "descent_ranked h nm \<Longrightarrow> \<exists>y. findLeafNode nm msgId = Some y"
proof -
  assume r: "descent_ranked h nm"
  have "\<forall>n. nm msgId = Some n \<longrightarrow> n \<in> ran nm" by (auto simp: ran_def)
  from findLeafNode_loop_returns [OF r this] show ?thesis
    by (auto simp: findLeafNode_def)
qed

lemma findLeafNode_absent: "nm msgId = None \<Longrightarrow> findLeafNode nm msgId = Some (- 1)"
  by (simp add: findLeafNode_def findLeafNode_loop_absent orMinusOne_def)

lemma selfChild_loop_never_returns:
  "findLeafNode_loop nm currNode = Some r \<Longrightarrow> nm = nodeMap [selfChild] \<Longrightarrow>
   currNode \<noteq> Some selfChild"
proof (induction rule: findLeafNode_loop.raw_induct [rotated 1, consumes 1])
  case (1 loop nm currNode r)
  then show ?case
    by (auto simp: selfChild_def nodeMap_def atLast_def orMinusOne_def
        split: option.splits if_splits)
qed

lemma descent_ranked_chat3: "descent_ranked (\<lambda>i. nat (10 - i)) (nodeMap chat3)"
  unfolding descent_ranked_def nodeMap_chat3
  by (auto simp: root0_def user1_def assistant2_def split: if_splits)

lemma findLeafNode_loop_result:
  "findLeafNode_loop nm currNode = Some r \<Longrightarrow> (\<forall>n. currNode = Some n \<longrightarrow> n \<in> ran nm) \<Longrightarrow>
   r = None \<or> (\<exists>n \<in> ran nm. r = Some n \<and> children n = [])"
proof (induction rule: findLeafNode_loop.raw_induct [rotated 1, consumes 1])
  case (1 loop nm currNode r)
  show ?case
  proof (cases currNode)
    case None
    with 1(2) show ?thesis by simp
  next
    case (Some n)
    show ?thesis
    proof (cases "children n = []")
      case True
      with Some 1(2,3) show ?thesis by auto
    next
      case False
      with Some 1(2) have "loop nm (nm (orMinusOne (atLast (children n)))) = Some r" by simp
      moreover have "\<forall>c. nm (orMinusOne (atLast (children n))) = Some c \<longrightarrow> c \<in> ran nm"
        by (auto simp: ran_def)
      ultimately show ?thesis by (rule 1(1))
    qed
  qed
qed

text \<open>
  C7, as stated, fails: on a node map where a node lists itself as its last child the loop of
  \<^verbatim>\<open>findLeafNode\<close> never ends, so no id is returned.
\<close>

theorem findLeafNode_selfChild_diverges: "findLeafNode (nodeMap [selfChild]) 1 = None"
proof -
  have "nodeMap [selfChild] 1 = Some selfChild" by (simp add: nodeMap_def selfChild_def)
  moreover have "findLeafNode_loop (nodeMap [selfChild]) (Some selfChild) = None"
    using selfChild_loop_never_returns [of "nodeMap [selfChild]" "Some selfChild"]
    by (cases "findLeafNode_loop (nodeMap [selfChild]) (Some selfChild)") auto
  ultimately show ?thesis by (simp add: findLeafNode_def)
qed

text \<open>
  C7 (amended): \<^verbatim>\<open>findLeafNode\<close> has no failing branch. Called on an id that is not in
  the map it returns the sentinel \<open>-1\<close>, whatever the map. On a map whose last-child links
  are ranked (every forest), it returns for every id, and the id it returns is \<open>-1\<close> or
  the id of a childless node of the map.
\<close>

theorem findLeafNode_returns_on_ranked:
  "(nm msgId = None \<longrightarrow> findLeafNode nm msgId = Some (- 1)) \<and>
   (descent_ranked h nm \<longrightarrow>
      (\<exists>y. findLeafNode nm msgId = Some y \<and>
           (y = - 1 \<or> (\<exists>n \<in> ran nm. msg_id n = y \<and> children n = []))))"
proof (intro conjI impI)
  assume "nm msgId = None"
  then show "findLeafNode nm msgId = Some (- 1)" by (rule findLeafNode_absent)
next
  assume "descent_ranked h nm"
  have inmap: "\<forall>n. nm msgId = Some n \<longrightarrow> n \<in> ran nm" by (auto simp: ran_def)
  from findLeafNode_loop_returns [OF \<open>descent_ranked h nm\<close> inmap]
  obtain r where r: "findLeafNode_loop nm (nm msgId) = Some r" by blast
  from findLeafNode_loop_result [OF r inmap] r
  show "\<exists>y. findLeafNode nm msgId = Some y \<and>
           (y = - 1 \<or> (\<exists>n \<in> ran nm. msg_id n = y \<and> children n = []))"
    by (auto simp: findLeafNode_def orMinusOne_def)
qed

theorem findLeafNode_returns_on_ranked_witness:
  "nodeMap chat3 7 = None \<and> descent_ranked (\<lambda>i. nat (10 - i)) (nodeMap chat3) \<and>
   findLeafNode (nodeMap chat3) 7 = Some (- 1)"
  using findLeafNode_returns_on_ranked [of "nodeMap chat3" 7 "\<lambda>i. nat (10 - i)"]
    descent_ranked_chat3
  by (simp add: nodeMap_chat3)

lemma findLeafNode_chat3:
  "findLeafNode (nodeMap chat3) 0 = Some 2"
  "findLeafNode (nodeMap chat3) 1 = Some 2"
  "findLeafNode (nodeMap chat3) 2 = Some 2"
  by (simp_all add: findLeafNode_def nodeMap_chat3 findLeafNode_loop_step findLeafNode_loop_leaf
      root0_def user1_def assistant2_def orMinusOne_def)

section \<open>The display loop\<close>

lemma indexOf_from_absent: "x \<notin> set xs \<Longrightarrow> indexOf_from xs x k = - 1"
  by (induction xs arbitrary: k) auto

lemma indexOf_from_present:
  "x \<in> set xs \<Longrightarrow>
   k \<le> indexOf_from xs x k \<and> indexOf_from xs x k < k + int (length xs) \<and>
   xs ! nat (indexOf_from xs x k - k) = x"
proof (induction xs arbitrary: k)
  case Nil
  then show ?case by simp
next
  case (Cons y ys)
  show ?case
  proof (cases "y = x")
    case True
    then show ?thesis by simp
  next
    case False
    with Cons.prems have "x \<in> set ys" by simp
    from Cons.IH [OF this, of "k + 1"] have
      r: "k + 1 \<le> indexOf_from ys x (k + 1)"
         "indexOf_from ys x (k + 1) < k + 1 + int (length ys)"
         "ys ! nat (indexOf_from ys x (k + 1) - (k + 1)) = x"
      by simp_all
    from r(1) have "nat (indexOf_from ys x (k + 1) - k)
                      = Suc (nat (indexOf_from ys x (k + 1) - (k + 1)))"
      by simp
    with r False show ?thesis by simp
  qed
qed

lemma indexOf_absent: "x \<notin> set xs \<Longrightarrow> indexOf xs x = - 1"
  by (simp add: indexOf_def indexOf_from_absent)

lemma indexOf_present:
  "x \<in> set xs \<Longrightarrow>
   0 \<le> indexOf xs x \<and> nat (indexOf xs x) < length xs \<and> xs ! nat (indexOf xs x) = x"
  using indexOf_from_present [of x xs 0] by (auto simp: indexOf_def)

lemma those_Some_map: "those xs = Some ys \<Longrightarrow> xs = map Some ys"
  by (induction xs arbitrary: ys) (auto split: option.splits)

lemma those_all_returned:
  "\<forall>x \<in> set xs. \<exists>y. f x = Some y \<Longrightarrow> \<exists>ys. those (map f xs) = Some ys"
  by (induction xs) auto

lemma display_loop_result:
  "display_loop nm currNodes res = Some out \<Longrightarrow>
   \<exists>new. out = res @ new \<and> map msg new = filter (shown nm) currNodes \<and>
     (\<forall>e \<in> set new. \<exists>p. nm (orMinusOne (parent (msg e))) = Some p \<and>
        map (findLeafNode nm) (children p) = map Some (siblingLeafNodeIds e) \<and>
        siblingCurrIdx e = indexOf (children p) (msg_id (msg e)) \<and> isPending e = None)"
proof (induction currNodes arbitrary: res)
  case Nil
  then show ?case by simp
next
  case (Cons m rest)
  show ?case
  proof (cases "nm (orMinusOne (parent m))")
    case None
    with Cons.prems have "display_loop nm rest res = Some out" by simp
    from Cons.IH [OF this] None show ?thesis by (simp add: shown_def)
  next
    case (Some p)
    show ?thesis
    proof (cases "msg_type m = Root")
      case True
      with Some Cons.prems have "display_loop nm rest res = Some out" by simp
      from Cons.IH [OF this] True show ?thesis by (simp add: shown_def)
    next
      case False
      with Some Cons.prems obtain leaves where
        leaves: "those (map (findLeafNode nm) (children p)) = Some leaves" and
        run: "display_loop nm rest
               (res @ [\<lparr>msg = m, siblingLeafNodeIds = leaves,
                        siblingCurrIdx = indexOf (children p) (msg_id m),
                        isPending = None\<rparr>]) = Some out"
        by (auto simp: Let_def split: option.splits)
      let ?e = "\<lparr>msg = m, siblingLeafNodeIds = leaves,
                 siblingCurrIdx = indexOf (children p) (msg_id m), isPending = None\<rparr>"
      from Cons.IH [OF run] obtain new where
        new: "out = (res @ [?e]) @ new" "map msg new = filter (shown nm) rest"
          "\<forall>e \<in> set new. \<exists>p. nm (orMinusOne (parent (msg e))) = Some p \<and>
             map (findLeafNode nm) (children p) = map Some (siblingLeafNodeIds e) \<and>
             siblingCurrIdx e = indexOf (children p) (msg_id (msg e)) \<and> isPending e = None"
        by blast
      have "out = res @ (?e # new)" using new(1) by simp
      moreover have "map msg (?e # new) = filter (shown nm) (m # rest)"
        using new(2) Some False by (simp add: shown_def)
      moreover have "\<forall>e \<in> set (?e # new). \<exists>p. nm (orMinusOne (parent (msg e))) = Some p \<and>
             map (findLeafNode nm) (children p) = map Some (siblingLeafNodeIds e) \<and>
             siblingCurrIdx e = indexOf (children p) (msg_id (msg e)) \<and> isPending e = None"
        using new(3) Some those_Some_map [OF leaves] by simp
      ultimately show ?thesis by blast
    qed
  qed
qed

lemma display_loop_returns:
  assumes "descent_ranked h nm"
  shows "\<exists>out. display_loop nm currNodes res = Some out"
proof (induction currNodes arbitrary: res)
  case Nil
  then show ?case by simp
next
  case (Cons m rest)
  have leaves: "\<exists>leaves. those (map (findLeafNode nm) siblings) = Some leaves" for siblings
    using findLeafNode_returns [OF assms] by (intro those_all_returned) blast
  show ?case
  proof (cases "nm (orMinusOne (parent m))")
    case None
    with Cons.IH show ?thesis by simp
  next
    case (Some p)
    from leaves [of "children p"] obtain ls where
      "those (map (findLeafNode nm) (children p)) = Some ls" by blast
    with Some Cons.IH show ?thesis by (simp add: Let_def)
  qed
qed

section \<open>The upward walk\<close>

lemma walkUp_absent: "walkUp nm None collected = Some collected"
  by (simp add: walkUp.simps)

lemma walkUp_step:
  "walkUp nm (Some n) collected = walkUp nm (nm (orMinusOne (parent n))) (collected @ [n])"
  by (subst walkUp.simps) simp

lemma walkUp_chain:
  "walkUp nm currNode collected = Some out \<Longrightarrow>
   \<exists>chain. out = collected @ chain \<and> up_chain nm currNode chain"
proof (induction rule: walkUp.raw_induct [rotated 1, consumes 1])
  case (1 walk nm currNode collected out)
  show ?case
  proof (cases currNode)
    case None
    with 1(2) show ?thesis by simp
  next
    case (Some n)
    with 1(2) have "walk nm (nm (orMinusOne (parent n))) (collected @ [n]) = Some out" by simp
    from 1(1) [OF this] obtain chain where
      "out = (collected @ [n]) @ chain" "up_chain nm (nm (orMinusOne (parent n))) chain"
      by blast
    with Some have "out = collected @ (n # chain) \<and> up_chain nm currNode (n # chain)" by simp
    then show ?thesis by blast
  qed
qed

lemma walkUp_returns:
  assumes "ascent_ranked d nm" and "\<forall>n. currNode = Some n \<longrightarrow> n \<in> ran nm"
  shows "\<exists>out. walkUp nm currNode collected = Some out"
  using assms(2)
proof (induction "case currNode of None \<Rightarrow> 0 | Some n \<Rightarrow> Suc (d (msg_id n))"
    arbitrary: currNode collected rule: less_induct)
  case less
  show ?case
  proof (cases currNode)
    case None
    then show ?thesis by (simp add: walkUp_absent)
  next
    case (Some n)
    let ?next = "nm (orMinusOne (parent n))"
    from Some less.prems obtain i where i: "nm i = Some n" by (auto simp: ran_def)
    have smaller: "(case ?next of None \<Rightarrow> 0 | Some p \<Rightarrow> Suc (d (msg_id p)))
                     < (case currNode of None \<Rightarrow> 0 | Some n \<Rightarrow> Suc (d (msg_id n)))"
      using assms(1) i Some by (auto simp: ascent_ranked_def split: option.splits)
    have "\<forall>p. ?next = Some p \<longrightarrow> p \<in> ran nm" by (auto simp: ran_def)
    from less.hyps [OF smaller this, of "collected @ [n]"] Some show ?thesis
      by (simp add: walkUp_step)
  qed
qed

lemma up_chain_members:
  "up_chain nm (Some l) chain \<Longrightarrow> a \<in> set chain \<Longrightarrow> a = l \<or> ancestor nm a l"
proof (induction chain arbitrary: l)
  case Nil
  then show ?case by simp
next
  case (Cons n rest)
  from Cons.prems(1) have n: "n = l" and rest: "up_chain nm (nm (orMinusOne (parent l))) rest"
    by simp_all
  show ?case
  proof (cases "a \<in> set rest")
    case False
    with Cons.prems(2) n show ?thesis by simp
  next
    case True
    then have "rest \<noteq> []" by auto
    with rest obtain p where p: "nm (orMinusOne (parent l)) = Some p"
      by (cases rest) auto
    from Cons.IH [OF rest [unfolded p] True] have "a = p \<or> ancestor nm a p" .
    with p show ?thesis by (auto intro: ancestor.intros)
  qed
qed

lemma up_chain_ordered:
  "up_chain nm c chain \<Longrightarrow> sorted_wrt (\<lambda>n a. ancestor nm a n) chain"
proof (induction chain arbitrary: c)
  case Nil
  then show ?case by simp
next
  case (Cons n rest)
  from Cons.prems have rest: "up_chain nm (nm (orMinusOne (parent n))) rest" by simp
  have "ancestor nm a n" if "a \<in> set rest" for a
  proof -
    from that have "rest \<noteq> []" by auto
    with rest obtain p where p: "nm (orMinusOne (parent n)) = Some p"
      by (cases rest) auto
    from up_chain_members [OF rest [unfolded p] that] p show ?thesis
      by (auto intro: ancestor.intros)
  qed
  with Cons.IH [OF rest] show ?case by simp
qed

lemma filterByLeafNodeId_path:
  assumes "filterByLeafNodeId msgs leafNodeId = Some currNodes"
  shows "\<exists>leaf. resolveLeaf msgs leafNodeId = Some leaf \<and>
           up_chain (nodeMap msgs) (nodeMap msgs leaf) (rev currNodes)"
proof -
  from assms obtain leaf out where
    leaf: "resolveLeaf msgs leafNodeId = Some leaf" and
    out: "walkUp (nodeMap msgs) (nodeMap msgs leaf) [] = Some out" and
    cur: "currNodes = rev out"
    by (auto simp: filterByLeafNodeId_def split: option.splits)
  from walkUp_chain [OF out] cur leaf show ?thesis by simp
qed

lemma resolveLeaf_returns:
  "descent_ranked h (nodeMap msgs) \<Longrightarrow> \<exists>leaf. resolveLeaf msgs leafNodeId = Some leaf"
  using findLeafNode_returns [of h "nodeMap msgs"]
  by (auto simp: resolveLeaf_def split: option.splits)

lemma filterByLeafNodeId_returns:
  assumes "descent_ranked h (nodeMap msgs)" and "ascent_ranked d (nodeMap msgs)"
  shows "\<exists>currNodes. filterByLeafNodeId msgs leafNodeId = Some currNodes"
proof -
  from resolveLeaf_returns [OF assms(1)] obtain leaf where
    leaf: "resolveLeaf msgs leafNodeId = Some leaf" by blast
  have "\<forall>n. nodeMap msgs leaf = Some n \<longrightarrow> n \<in> ran (nodeMap msgs)" by (auto simp: ran_def)
  from walkUp_returns [OF assms(2) this] leaf show ?thesis
    by (auto simp: filterByLeafNodeId_def)
qed

lemma ascent_ranked_chat3: "ascent_ranked (\<lambda>i. nat i) (nodeMap chat3)"
  unfolding ascent_ranked_def nodeMap_chat3
  by (auto simp: root0_def user1_def assistant2_def orMinusOne_def split: if_splits)

lemma filterByLeafNodeId_chat3: "filterByLeafNodeId chat3 2 = Some [root0, user1, assistant2]"
proof -
  have a: "parent assistant2 = Some 1" "parent user1 = Some 0" "parent root0 = None"
    by (simp_all add: root0_def user1_def assistant2_def)
  show ?thesis
    by (simp add: filterByLeafNodeId_def resolveLeaf_def nodeMap_chat3 walkUp_step walkUp_absent
        a orMinusOne_def)
qed

lemma display_chat3:
  "display_loop (nodeMap chat3) [root0, user1, assistant2] [] =
     Some [\<lparr>msg = user1, siblingLeafNodeIds = [2], siblingCurrIdx = 0, isPending = None\<rparr>,
           \<lparr>msg = assistant2, siblingLeafNodeIds = [2], siblingCurrIdx = 0, isPending = None\<rparr>]"
proof -
  have a: "parent assistant2 = Some 1" "parent user1 = Some 0" "parent root0 = None"
    "children root0 = [1]" "children user1 = [2]" "msg_type user1 = UserTurn"
    "msg_type assistant2 = AssistantTurn" "msg_id user1 = 1" "msg_id assistant2 = 2"
    by (simp_all add: root0_def user1_def assistant2_def)
  have nm: "nodeMap chat3 (- 1) = None" "nodeMap chat3 0 = Some root0"
    "nodeMap chat3 1 = Some user1"
    by (simp_all add: nodeMap_chat3)
  show ?thesis
    by (simp add: a nm orMinusOne_def findLeafNode_chat3 indexOf_def Let_def)
qed

section \<open>Properties of the displayed path\<close>

lemma getListMessageDisplay_chat3:
  "getListMessageDisplay filterByLeafNodeId chat3 2 =
     Some [\<lparr>msg = user1, siblingLeafNodeIds = [2], siblingCurrIdx = 0, isPending = None\<rparr>,
           \<lparr>msg = assistant2, siblingLeafNodeIds = [2], siblingCurrIdx = 0, isPending = None\<rparr>]"
  by (simp only: getListMessageDisplay_def filterByLeafNodeId_chat3 option.case display_chat3)

lemma getListMessageDisplay_result:
  assumes "getListMessageDisplay flt msgs leafNodeId = Some res"
  shows "\<exists>currNodes. flt msgs leafNodeId = Some currNodes \<and>
           map msg res = filter (shown (nodeMap msgs)) currNodes \<and>
           (\<forall>e \<in> set res. \<exists>p. nodeMap msgs (orMinusOne (parent (msg e))) = Some p \<and>
              map (findLeafNode (nodeMap msgs)) (children p) = map Some (siblingLeafNodeIds e) \<and>
              siblingCurrIdx e = indexOf (children p) (msg_id (msg e)) \<and> isPending e = None)"
proof -
  from assms obtain currNodes where
    cur: "flt msgs leafNodeId = Some currNodes" and
    run: "display_loop (nodeMap msgs) currNodes [] = Some res"
    by (auto simp: getListMessageDisplay_def split: option.splits)
  from display_loop_result [OF run] cur show ?thesis by auto
qed

lemma findLeafNode_loop_descent:
  "findLeafNode_loop nm currNode = Some r \<Longrightarrow>
   \<forall>i. currNode = nm i \<longrightarrow>
     (r = None \<and> falls_off nm i) \<or> (\<exists>n. r = Some n \<and> natural_leaf nm i (msg_id n))"
proof (induction rule: findLeafNode_loop.raw_induct [rotated 1, consumes 1])
  case (1 loop nm currNode r)
  show ?case
  proof (intro allI impI)
    fix i assume at: "currNode = nm i"
    show "(r = None \<and> falls_off nm i) \<or> (\<exists>n. r = Some n \<and> natural_leaf nm i (msg_id n))"
    proof (cases currNode)
      case None
      with 1(2) at show ?thesis by (auto intro: falls_off.not_in_map)
    next
      case (Some n)
      with at have here: "nm i = Some n" by simp
      show ?thesis
      proof (cases "children n = []")
        case True
        with Some 1(2) have "r = Some n" by simp
        with natural_leaf.childless [of nm i n] here True show ?thesis by simp
      next
        case False
        with Some 1(2) have "loop nm (nm (last (children n))) = Some r"
          by (simp add: atLast_def orMinusOne_def)
        from 1(1) [OF this] have
          "(r = None \<and> falls_off nm (last (children n))) \<or>
           (\<exists>m. r = Some m \<and> natural_leaf nm (last (children n)) (msg_id m))"
          by blast
        with falls_off.below [of nm i n] natural_leaf.last_child [of nm i n] here False
        show ?thesis by auto
      qed
    qed
  qed
qed

lemma findLeafNode_descent:
  "findLeafNode nm i = Some y \<Longrightarrow> natural_leaf nm i y \<or> (y = - 1 \<and> falls_off nm i)"
proof -
  assume "findLeafNode nm i = Some y"
  then obtain r where r: "findLeafNode_loop nm (nm i) = Some r"
    and y: "y = orMinusOne (map_option msg_id r)"
    by (auto simp: findLeafNode_def)
  from findLeafNode_loop_descent [OF r] y show ?thesis
    by (auto simp: orMinusOne_def)
qed

text \<open>
  C2, as stated, fails: the user message names the root as its parent and the root is in the
  node map, but the root lists only the id 5, which no message has. The message is displayed
  with the sibling list \<open>[-1]\<close>, where no descent reached a childless node, and with
  \<^verbatim>\<open>siblingCurrIdx\<close> \<open>-1\<close>, which is no valid index.
\<close>

theorem unlisted_child_index_counterexample:
  "nodeMap unlisted (orMinusOne (parent user1)) = Some looseRoot \<and>
   nodeMap unlisted 5 = None \<and>
   getListMessageDisplay filterByLeafNodeId unlisted 1 =
     Some [\<lparr>msg = user1, siblingLeafNodeIds = [- 1], siblingCurrIdx = - 1, isPending = None\<rparr>]"
proof -
  have nm: "nodeMap unlisted = [0 \<mapsto> looseRoot, 1 \<mapsto> user1]"
    by (simp add: nodeMap_def unlisted_def looseRoot_def user1_def)
  have a: "parent user1 = Some 0" "parent looseRoot = None" "children looseRoot = [5]"
    "msg_type user1 = UserTurn" "msg_type looseRoot = Root" "msg_id user1 = 1"
    by (simp_all add: looseRoot_def user1_def)
  have path: "filterByLeafNodeId unlisted 1 = Some [looseRoot, user1]"
    by (simp add: filterByLeafNodeId_def resolveLeaf_def nm walkUp_step walkUp_absent a
        orMinusOne_def)
  have ghost: "findLeafNode [0 \<mapsto> looseRoot, 1 \<mapsto> user1] 5 = Some (- 1)"
    by (simp add: findLeafNode_absent)
  show ?thesis
    by (simp add: getListMessageDisplay_def path nm a ghost orMinusOne_def indexOf_def Let_def)
qed

text \<open>
  C2 (amended): every entry returned by \<^verbatim>\<open>getListMessageDisplay\<close> is a non-root node whose
  parent is in the node map. Its \<^verbatim>\<open>siblingLeafNodeIds\<close> has the length of the parent's
  children and holds, in child order, for each child the natural leaf under it, found by
  repeatedly following the last child until a childless node, or \<open>-1\<close> when that descent
  meets an id that is not in the map. Its \<^verbatim>\<open>siblingCurrIdx\<close> is the index of the node's
  id in the parent's children: a valid index, at which the children hold the node's id, when
  the parent lists the node, and \<open>-1\<close> when it does not.
\<close>

theorem siblings_of_displayed_node:
  assumes "getListMessageDisplay flt msgs leafNodeId = Some res" and "e \<in> set res"
  shows "msg_type (msg e) \<noteq> Root \<and>
    (\<exists>p. nodeMap msgs (orMinusOne (parent (msg e))) = Some p \<and>
       map (findLeafNode (nodeMap msgs)) (children p) = map Some (siblingLeafNodeIds e) \<and>
       length (siblingLeafNodeIds e) = length (children p) \<and>
       (\<forall>k < length (children p).
          natural_leaf (nodeMap msgs) (children p ! k) (siblingLeafNodeIds e ! k) \<or>
          (siblingLeafNodeIds e ! k = - 1 \<and> falls_off (nodeMap msgs) (children p ! k))) \<and>
       siblingCurrIdx e = indexOf (children p) (msg_id (msg e)) \<and>
       (msg_id (msg e) \<in> set (children p) \<longrightarrow>
          0 \<le> siblingCurrIdx e \<and> nat (siblingCurrIdx e) < length (siblingLeafNodeIds e) \<and>
          children p ! nat (siblingCurrIdx e) = msg_id (msg e)) \<and>
       (msg_id (msg e) \<notin> set (children p) \<longrightarrow> siblingCurrIdx e = - 1))"
proof -
  from getListMessageDisplay_result [OF assms(1)] obtain currNodes where
    shown: "map msg res = filter (shown (nodeMap msgs)) currNodes" and
    entries: "\<forall>e \<in> set res. \<exists>p. nodeMap msgs (orMinusOne (parent (msg e))) = Some p \<and>
              map (findLeafNode (nodeMap msgs)) (children p) = map Some (siblingLeafNodeIds e) \<and>
              siblingCurrIdx e = indexOf (children p) (msg_id (msg e)) \<and> isPending e = None"
    by blast
  from assms(2) have "msg e \<in> set (map msg res)" by simp
  with shown have noroot: "msg_type (msg e) \<noteq> Root" by (simp add: shown_def)
  from entries assms(2) obtain p where
    p: "nodeMap msgs (orMinusOne (parent (msg e))) = Some p" and
    leaves: "map (findLeafNode (nodeMap msgs)) (children p) = map Some (siblingLeafNodeIds e)" and
    idx: "siblingCurrIdx e = indexOf (children p) (msg_id (msg e))"
    by blast
  from leaves have len: "length (siblingLeafNodeIds e) = length (children p)"
    by (metis length_map)
  have descent: "\<forall>k < length (children p).
          natural_leaf (nodeMap msgs) (children p ! k) (siblingLeafNodeIds e ! k) \<or>
          (siblingLeafNodeIds e ! k = - 1 \<and> falls_off (nodeMap msgs) (children p ! k))"
  proof (intro allI impI)
    fix k assume k: "k < length (children p)"
    then have "map (findLeafNode (nodeMap msgs)) (children p) ! k
                 = findLeafNode (nodeMap msgs) (children p ! k)"
      by simp
    moreover from k len have "map Some (siblingLeafNodeIds e) ! k = Some (siblingLeafNodeIds e ! k)"
      by simp
    ultimately have "findLeafNode (nodeMap msgs) (children p ! k) = Some (siblingLeafNodeIds e ! k)"
      using leaves by simp
    then show "natural_leaf (nodeMap msgs) (children p ! k) (siblingLeafNodeIds e ! k) \<or>
          (siblingLeafNodeIds e ! k = - 1 \<and> falls_off (nodeMap msgs) (children p ! k))"
      by (rule findLeafNode_descent)
  qed
  have listed: "0 \<le> siblingCurrIdx e \<and> nat (siblingCurrIdx e) < length (siblingLeafNodeIds e) \<and>
          children p ! nat (siblingCurrIdx e) = msg_id (msg e)"
    if "msg_id (msg e) \<in> set (children p)"
    using indexOf_present [OF that] idx len by simp
  have unlisted: "siblingCurrIdx e = - 1" if "msg_id (msg e) \<notin> set (children p)"
    using indexOf_absent [OF that] idx by simp
  from noroot p leaves len descent idx listed unlisted show ?thesis by blast
qed

theorem siblings_of_displayed_node_witness:
  "getListMessageDisplay filterByLeafNodeId chat3 2 =
     Some [\<lparr>msg = user1, siblingLeafNodeIds = [2], siblingCurrIdx = 0, isPending = None\<rparr>,
           \<lparr>msg = assistant2, siblingLeafNodeIds = [2], siblingCurrIdx = 0, isPending = None\<rparr>] \<and>
   nodeMap chat3 (orMinusOne (parent user1)) = Some root0 \<and>
   children root0 = [1] \<and>
   natural_leaf (nodeMap chat3) 1 2 \<and>
   0 = indexOf (children root0) (msg_id user1)"
proof -
  let ?e = "\<lparr>msg = user1, siblingLeafNodeIds = [2], siblingCurrIdx = 0, isPending = None\<rparr>"
  have p0: "nodeMap chat3 (orMinusOne (parent user1)) = Some root0"
    by (simp add: nodeMap_chat3 user1_def orMinusOne_def)
  have kids: "children root0 = [1]" by (simp add: root0_def)
  have mem: "?e \<in> set [?e, \<lparr>msg = assistant2, siblingLeafNodeIds = [2], siblingCurrIdx = 0,
                             isPending = None\<rparr>]"
    by simp
  from siblings_of_displayed_node [where flt = filterByLeafNodeId and msgs = chat3
      and leafNodeId = 2 and e = ?e, OF getListMessageDisplay_chat3 mem] p0 kids
  have "(natural_leaf (nodeMap chat3) 1 2 \<or> ((2 :: int) = - 1 \<and> falls_off (nodeMap chat3) 1)) \<and>
        0 = indexOf (children root0) (msg_id user1)"
    by auto
  with getListMessageDisplay_chat3 p0 kids show ?thesis by simp
qed

text \<open>
  C6: whatever path \<^verbatim>\<open>filterByLeafNodeId\<close> returns for a forest, \<^verbatim>\<open>getListMessageDisplay\<close>
  returns a list (it has no failing branch), and the nodes of that list are the nodes of the
  path, in the order of the path, that have their parent in the node map and are no root. A
  node of the path whose parent id is not in the node map is not in the list.
\<close>

theorem orphan_excluded_from_path:
  assumes "flt msgs leafNodeId = Some currNodes" and "descent_ranked h (nodeMap msgs)"
  shows "\<exists>res. getListMessageDisplay flt msgs leafNodeId = Some res \<and>
    map msg res =
      filter (\<lambda>m. nodeMap msgs (orMinusOne (parent m)) \<noteq> None \<and> msg_type m \<noteq> Root) currNodes \<and>
    (\<forall>m \<in> set currNodes. nodeMap msgs (orMinusOne (parent m)) = None \<longrightarrow> m \<notin> msg ` set res)"
proof -
  from display_loop_returns [OF assms(2)] obtain res where
    run: "display_loop (nodeMap msgs) currNodes [] = Some res" by blast
  with assms(1) have res: "getListMessageDisplay flt msgs leafNodeId = Some res"
    by (simp add: getListMessageDisplay_def)
  from display_loop_result [OF run] have
    kept: "map msg res = filter (shown (nodeMap msgs)) currNodes" by auto
  have "m \<notin> msg ` set res" if "nodeMap msgs (orMinusOne (parent m)) = None" for m
  proof
    assume "m \<in> msg ` set res"
    then have "m \<in> set (map msg res)" by simp
    with kept have "shown (nodeMap msgs) m" by simp
    with that show False by (simp add: shown_def)
  qed
  with res kept show ?thesis unfolding shown_def by blast
qed

theorem orphan_excluded_from_path_witness:
  "filterByLeafNodeId chat3 2 = Some [root0, user1, assistant2] \<and>
   descent_ranked (\<lambda>i. nat (10 - i)) (nodeMap chat3) \<and>
   nodeMap chat3 (orMinusOne (parent root0)) = None \<and>
   (\<exists>res. getListMessageDisplay filterByLeafNodeId chat3 2 = Some res \<and>
      root0 \<notin> msg ` set res)"
proof -
  have orphan: "nodeMap chat3 (orMinusOne (parent root0)) = None"
    by (simp add: nodeMap_chat3 root0_def orMinusOne_def)
  from orphan_excluded_from_path [where flt = filterByLeafNodeId and msgs = chat3
      and leafNodeId = 2, OF filterByLeafNodeId_chat3 descent_ranked_chat3] orphan
  have "\<exists>res. getListMessageDisplay filterByLeafNodeId chat3 2 = Some res \<and>
      root0 \<notin> msg ` set res"
    by auto
  with orphan filterByLeafNodeId_chat3 descent_ranked_chat3 show ?thesis by simp
qed

lemma up_chain_complete:
  "ancestor nm a l \<Longrightarrow> up_chain nm (Some l) chain \<Longrightarrow> a \<in> set chain"
proof (induction arbitrary: chain rule: ancestor.induct)
  case (parent_link n a)
  from parent_link.prems obtain rest where
    "chain = n # rest" "up_chain nm (nm (orMinusOne (parent n))) rest"
    by (cases chain) auto
  with parent_link.hyps show ?case by (cases rest) auto
next
  case (further_up n p a)
  from further_up.prems obtain rest where
    rest: "chain = n # rest" "up_chain nm (nm (orMinusOne (parent n))) rest"
    by (cases chain) auto
  with further_up.hyps(1) have "up_chain nm (Some p) rest" by simp
  from further_up.IH [OF this] rest(1) show ?case by simp
qed

lemma up_chain_head: "up_chain nm (Some l) chain \<Longrightarrow> chain \<noteq> [] \<and> hd chain = l"
  by (cases chain) auto

text \<open>
  C1: for every forest (parent links and last-child links ranked) and every leaf id, the path
  resolver returns a list. Its nodes are exactly the nodes of the parent chain of the
  resolved leaf, taken from the root end to the leaf, that have their parent in the node map
  and are no root: no entry is a root-type node; each entry is an ancestor of all entries
  after it; the nodes returned are the resolved leaf and its ancestors, as far as they are
  displayable, and no others; a displayable leaf is the last entry.
\<close>

theorem path_in_ancestor_order:
  assumes "descent_ranked h (nodeMap msgs)" and "ascent_ranked d (nodeMap msgs)"
  shows "\<exists>res leaf currNodes.
    getListMessageDisplay filterByLeafNodeId msgs leafNodeId = Some res \<and>
    resolveLeaf msgs leafNodeId = Some leaf \<and>
    up_chain (nodeMap msgs) (nodeMap msgs leaf) (rev currNodes) \<and>
    map msg res =
      filter (\<lambda>m. nodeMap msgs (orMinusOne (parent m)) \<noteq> None \<and> msg_type m \<noteq> Root) currNodes \<and>
    (\<forall>e \<in> set res. msg_type (msg e) \<noteq> Root) \<and>
    sorted_wrt (ancestor (nodeMap msgs)) (map msg res) \<and>
    (nodeMap msgs leaf = None \<longrightarrow> res = []) \<and>
    (\<forall>l. nodeMap msgs leaf = Some l \<longrightarrow>
       set (map msg res) =
         {m. (m = l \<or> ancestor (nodeMap msgs) m l) \<and>
             nodeMap msgs (orMinusOne (parent m)) \<noteq> None \<and> msg_type m \<noteq> Root} \<and>
       (nodeMap msgs (orMinusOne (parent l)) \<noteq> None \<and> msg_type l \<noteq> Root \<longrightarrow>
          res \<noteq> [] \<and> msg (last res) = l))"
proof -
  let ?nm = "nodeMap msgs"
  let ?shown = "\<lambda>m. ?nm (orMinusOne (parent m)) \<noteq> None \<and> msg_type m \<noteq> Root"
  from filterByLeafNodeId_returns [OF assms] obtain currNodes where
    cur: "filterByLeafNodeId msgs leafNodeId = Some currNodes" by blast
  from filterByLeafNodeId_path [OF cur] obtain leaf where
    leaf: "resolveLeaf msgs leafNodeId = Some leaf" and
    chain: "up_chain ?nm (?nm leaf) (rev currNodes)" by blast
  from display_loop_returns [OF assms(1)] obtain res where
    run: "display_loop ?nm currNodes [] = Some res" by blast
  with cur have res: "getListMessageDisplay filterByLeafNodeId msgs leafNodeId = Some res"
    by (simp add: getListMessageDisplay_def)
  from display_loop_result [OF run] have
    kept: "map msg res = filter ?shown currNodes" by (auto simp: shown_def [abs_def])
  have noroot: "\<forall>e \<in> set res. msg_type (msg e) \<noteq> Root"
  proof
    fix e assume "e \<in> set res"
    then have "msg e \<in> set (map msg res)" by simp
    with kept show "msg_type (msg e) \<noteq> Root" by simp
  qed
  from up_chain_ordered [OF chain] have "sorted_wrt (ancestor ?nm) currNodes"
    by (simp add: sorted_wrt_rev)
  then have ordered: "sorted_wrt (ancestor ?nm) (map msg res)"
    unfolding kept by (rule sorted_wrt_filter)
  have no_leaf: "res = []" if "?nm leaf = None"
  proof -
    from chain that have "rev currNodes = []" by (cases "rev currNodes") auto
    with kept show ?thesis by simp
  qed
  have exact: "set (map msg res) = {m. (m = l \<or> ancestor ?nm m l) \<and> ?shown m} \<and>
       (?shown l \<longrightarrow> res \<noteq> [] \<and> msg (last res) = l)"
    if l: "?nm leaf = Some l" for l
  proof -
    from chain l have up: "up_chain ?nm (Some l) (rev currNodes)" by simp
    have members: "set currNodes = {m. m = l \<or> ancestor ?nm m l}"
    proof (intro set_eqI iffI)
      fix m assume "m \<in> set currNodes"
      then have "m \<in> set (rev currNodes)" by simp
      from up_chain_members [OF up this] show "m \<in> {m. m = l \<or> ancestor ?nm m l}" by simp
    next
      fix m assume "m \<in> {m. m = l \<or> ancestor ?nm m l}"
      then consider "m = l" | "ancestor ?nm m l" by blast
      then have "m \<in> set (rev currNodes)"
      proof cases
        case 1
        with up_chain_head [OF up] show ?thesis by (metis hd_in_set)
      next
        case 2
        then show ?thesis using up by (rule up_chain_complete)
      qed
      then show "m \<in> set currNodes" by simp
    qed
    have first: "set (map msg res) = {m. (m = l \<or> ancestor ?nm m l) \<and> ?shown m}"
      unfolding kept using members by auto
    have final: "res \<noteq> [] \<and> msg (last res) = l" if "?shown l"
    proof -
      from up_chain_head [OF up] obtain front where cn: "currNodes = front @ [l]"
        by (cases currNodes rule: rev_cases) auto
      with kept that have m: "map msg res = filter ?shown front @ [l]" by simp
      then have ne: "res \<noteq> []" by auto
      with m have "last (map msg res) = l" by simp
      with ne show ?thesis by (simp add: last_map)
    qed
    from first final show ?thesis by blast
  qed
  have none: "?nm leaf = None \<longrightarrow> res = []"
  proof
    assume "?nm leaf = None"
    then show "res = []" by (rule no_leaf)
  qed
  have some: "\<forall>l. ?nm leaf = Some l \<longrightarrow>
       set (map msg res) = {m. (m = l \<or> ancestor ?nm m l) \<and> ?shown m} \<and>
       (?shown l \<longrightarrow> res \<noteq> [] \<and> msg (last res) = l)"
  proof (intro allI impI)
    fix l assume "?nm leaf = Some l"
    then show "set (map msg res) = {m. (m = l \<or> ancestor ?nm m l) \<and> ?shown m} \<and>
       (?shown l \<longrightarrow> res \<noteq> [] \<and> msg (last res) = l)"
      by (rule exact)
  qed
  show ?thesis
    by (intro exI [of _ res] exI [of _ leaf] exI [of _ currNodes] conjI
        res leaf chain kept noroot ordered none some)
qed

theorem path_in_ancestor_order_witness:
  "descent_ranked (\<lambda>i. nat (10 - i)) (nodeMap chat3) \<and> ascent_ranked (\<lambda>i. nat i) (nodeMap chat3) \<and>
   (\<exists>res. getListMessageDisplay filterByLeafNodeId chat3 2 = Some res \<and>
      resolveLeaf chat3 2 = Some 2 \<and> nodeMap chat3 2 = Some assistant2 \<and>
      sorted_wrt (ancestor (nodeMap chat3)) (map msg res) \<and>
      res \<noteq> [] \<and> msg (last res) = assistant2 \<and>
      set (map msg res) =
        {m. (m = assistant2 \<or> ancestor (nodeMap chat3) m assistant2) \<and>
            nodeMap chat3 (orMinusOne (parent m)) \<noteq> None \<and> msg_type m \<noteq> Root})"
proof -
  have leaf: "resolveLeaf chat3 2 = Some 2" by (simp add: resolveLeaf_def)
  have node: "nodeMap chat3 2 = Some assistant2" by (simp add: nodeMap_chat3)
  have disp: "nodeMap chat3 (orMinusOne (parent assistant2)) \<noteq> None \<and>
              msg_type assistant2 \<noteq> Root"
    by (simp add: nodeMap_chat3 assistant2_def orMinusOne_def)
  from path_in_ancestor_order [OF descent_ranked_chat3 ascent_ranked_chat3, of 2] leaf node disp
  have "\<exists>res. getListMessageDisplay filterByLeafNodeId chat3 2 = Some res \<and>
      resolveLeaf chat3 2 = Some 2 \<and> nodeMap chat3 2 = Some assistant2 \<and>
      sorted_wrt (ancestor (nodeMap chat3)) (map msg res) \<and>
      res \<noteq> [] \<and> msg (last res) = assistant2 \<and>
      set (map msg res) =
        {m. (m = assistant2 \<or> ancestor (nodeMap chat3) m assistant2) \<and>
            nodeMap chat3 (orMinusOne (parent m)) \<noteq> None \<and> msg_type m \<noteq> Root}"
    by auto
  with descent_ranked_chat3 ascent_ranked_chat3 show ?thesis by blast
qed

text \<open>
  C8, as stated, fails: in the three-node conversation the sibling list of neither displayed
  entry is empty.
\<close>

theorem chat3_sibling_lists_not_empty:
  "map_option (map siblingLeafNodeIds) (getListMessageDisplay filterByLeafNodeId chat3 2)
     \<noteq> Some [[], []]"
  by (simp add: getListMessageDisplay_chat3)

text \<open>
  C8 (amended): in the conversation root 0, user 1 (parent 0, children [2]), assistant 2
  (parent 1, no children), resolving leaf id 2 gives exactly the entries of user 1 and
  assistant 2, in this order; each has the sibling list \<open>[2]\<close>, of length 1, holding the
  natural leaf of the only child, and \<^verbatim>\<open>siblingCurrIdx\<close> 0.
\<close>

theorem chat3_resolved_path:
  "getListMessageDisplay filterByLeafNodeId [root0, user1, assistant2] 2 =
     Some [\<lparr>msg = user1, siblingLeafNodeIds = [2], siblingCurrIdx = 0, isPending = None\<rparr>,
           \<lparr>msg = assistant2, siblingLeafNodeIds = [2], siblingCurrIdx = 0, isPending = None\<rparr>]"
  using getListMessageDisplay_chat3 by (simp add: chat3_def)

section \<open>The rendered list\<close>

lemma lastMsgId_snoc: "lastMsgId (ms @ [e]) = Some (msg_id (msg e))"
  by (simp add: lastMsgId_def atLast_def)

lemma lastMsgId_empty: "lastMsgId [] = None"
  by (simp add: lastMsgId_def atLast_def)

lemma pending_id_count:
  assumes "msg_id p \<notin> (\<lambda>e. msg_id (msg e)) ` set (butlast messages)"
  shows "length (filter (\<lambda>e. msg_id (msg e) = msg_id p)
           (messages @ pendingMsgDisplay messages (Some p))) = 1"
proof (cases messages rule: rev_cases)
  case Nil
  then show ?thesis by (simp add: pendingMsgDisplay_def lastMsgId_empty)
next
  case (snoc ms e)
  with assms have "filter (\<lambda>e. msg_id (msg e) = msg_id p) ms = []"
    by (force simp: filter_empty_conv)
  with snoc show ?thesis by (simp add: pendingMsgDisplay_def lastMsgId_snoc)
qed

text \<open>
  C9, as stated, fails in its last clause: with a pending message that has the id of the first
  entry of the path, the last entry of the path does not carry the pending id, the pending
  entry is appended, and the id 1 is rendered twice.
\<close>

theorem pending_id_rendered_twice:
  "map_option (map (msg_id \<circ> msg))
     (renderedMessages filterByLeafNodeId (Some viewChat3) [''c1'' \<mapsto> clashing1] 2)
     = Some [1, 2, 1]"
proof -
  have path: "chatMessages filterByLeafNodeId (Some viewChat3) 2 =
     Some [\<lparr>msg = user1, siblingLeafNodeIds = [2], siblingCurrIdx = 0, isPending = None\<rparr>,
           \<lparr>msg = assistant2, siblingLeafNodeIds = [2], siblingCurrIdx = 0, isPending = None\<rparr>]"
    by (simp add: chatMessages_def viewChat3_def getListMessageDisplay_chat3)
  have pend: "pendingMsg [''c1'' \<mapsto> clashing1] (Some viewChat3) = Some clashing1"
    by (simp add: pendingMsg_def currConvId_def orEmpty_def viewChat3_def)
  have ids: "msg_id user1 = 1" "msg_id assistant2 = 2" "msg_id clashing1 = 1"
    by (simp_all add: user1_def assistant2_def clashing1_def)
  show ?thesis
    by (simp add: renderedMessages_def path pend pendingMsgDisplay_def lastMsgId_def atLast_def ids)
qed

text \<open>
  C9 (amended): when a pending message exists for the viewed conversation and the last entry of the
  committed path does not carry its id (or the path is empty), the rendered list is the path
  followed by exactly one entry: the pending message with an empty sibling list, index 0 and
  \<^verbatim>\<open>isPending\<close> true. When the last entry carries the pending id, or no pending message
  exists, the rendered list is the path alone. So a pending id that the path carries at most
  in its last entry is rendered exactly once; only the last entry is compared, and a pending
  id carried by an earlier entry of the path is rendered again by the pending entry.
\<close>

theorem pending_entry_rendered_once:
  assumes "chatMessages flt viewingChat leaf = Some messages"
  shows "(pendingMsg pendingMessages viewingChat = None \<longrightarrow>
            renderedMessages flt viewingChat pendingMessages leaf = Some messages) \<and>
         (\<forall>p. pendingMsg pendingMessages viewingChat = Some p \<longrightarrow>
            (lastMsgId messages \<noteq> Some (msg_id p) \<longrightarrow>
               renderedMessages flt viewingChat pendingMessages leaf =
                 Some (messages @ [\<lparr>msg = p, siblingLeafNodeIds = [], siblingCurrIdx = 0,
                                     isPending = Some True\<rparr>])) \<and>
            (lastMsgId messages = Some (msg_id p) \<longrightarrow>
               renderedMessages flt viewingChat pendingMessages leaf = Some messages) \<and>
            (msg_id p \<notin> (\<lambda>e. msg_id (msg e)) ` set (butlast messages) \<longrightarrow>
               (\<exists>shownList. renderedMessages flt viewingChat pendingMessages leaf = Some shownList \<and>
                  length (filter (\<lambda>e. msg_id (msg e) = msg_id p) shownList) = 1)))"
proof (intro conjI allI impI)
  assume "pendingMsg pendingMessages viewingChat = None"
  with assms show "renderedMessages flt viewingChat pendingMessages leaf = Some messages"
    by (simp add: renderedMessages_def pendingMsgDisplay_def)
next
  fix p
  assume "pendingMsg pendingMessages viewingChat = Some p"
    and "lastMsgId messages \<noteq> Some (msg_id p)"
  with assms show "renderedMessages flt viewingChat pendingMessages leaf =
      Some (messages @ [\<lparr>msg = p, siblingLeafNodeIds = [], siblingCurrIdx = 0,
                          isPending = Some True\<rparr>])"
    by (simp add: renderedMessages_def pendingMsgDisplay_def)
next
  fix p
  assume "pendingMsg pendingMessages viewingChat = Some p"
    and "lastMsgId messages = Some (msg_id p)"
  with assms show "renderedMessages flt viewingChat pendingMessages leaf = Some messages"
    by (simp add: renderedMessages_def pendingMsgDisplay_def)
next
  fix p
  assume p: "pendingMsg pendingMessages viewingChat = Some p"
    and "msg_id p \<notin> (\<lambda>e. msg_id (msg e)) ` set (butlast messages)"
  from pending_id_count [OF this(2)] assms p
  show "\<exists>shownList. renderedMessages flt viewingChat pendingMessages leaf = Some shownList \<and>
          length (filter (\<lambda>e. msg_id (msg e) = msg_id p) shownList) = 1"
    by (simp add: renderedMessages_def)
qed

theorem pending_entry_rendered_once_witness:
  "chatMessages filterByLeafNodeId (Some viewChat3) 2 =
     Some [\<lparr>msg = user1, siblingLeafNodeIds = [2], siblingCurrIdx = 0, isPending = None\<rparr>,
           \<lparr>msg = assistant2, siblingLeafNodeIds = [2], siblingCurrIdx = 0, isPending = None\<rparr>] \<and>
   pendingMsg [''c1'' \<mapsto> pending3] (Some viewChat3) = Some pending3 \<and>
   renderedMessages filterByLeafNodeId (Some viewChat3) [''c1'' \<mapsto> pending3] 2 =
     Some [\<lparr>msg = user1, siblingLeafNodeIds = [2], siblingCurrIdx = 0, isPending = None\<rparr>,
           \<lparr>msg = assistant2, siblingLeafNodeIds = [2], siblingCurrIdx = 0, isPending = None\<rparr>,
           \<lparr>msg = pending3, siblingLeafNodeIds = [], siblingCurrIdx = 0, isPending = Some True\<rparr>]"
proof -
  let ?path = "[\<lparr>msg = user1, siblingLeafNodeIds = [2], siblingCurrIdx = 0, isPending = None\<rparr>,
           \<lparr>msg = assistant2, siblingLeafNodeIds = [2], siblingCurrIdx = 0, isPending = None\<rparr>]"
  have path: "chatMessages filterByLeafNodeId (Some viewChat3) 2 = Some ?path"
    by (simp add: chatMessages_def viewChat3_def getListMessageDisplay_chat3)
  have pend: "pendingMsg [''c1'' \<mapsto> pending3] (Some viewChat3) = Some pending3"
    by (simp add: pendingMsg_def currConvId_def orEmpty_def viewChat3_def)
  have other: "lastMsgId ?path \<noteq> Some (msg_id pending3)"
    by (simp add: lastMsgId_def atLast_def assistant2_def pending3_def)
  from pending_entry_rendered_once [OF path, of "[''c1'' \<mapsto> pending3]"] pend other
  have "renderedMessages filterByLeafNodeId (Some viewChat3) [''c1'' \<mapsto> pending3] 2 =
          Some (?path @ [\<lparr>msg = pending3, siblingLeafNodeIds = [], siblingCurrIdx = 0,
                           isPending = Some True\<rparr>])"
    by blast
  with path pend show ?thesis by simp
qed

section \<open>Sending\<close>

lemma onChunk_keeps:
  "textarea_value (onChunk c s) = textarea_value s \<and>
   extraContext_items (onChunk c s) = extraContext_items s \<and>
   (\<exists>mid. effects (onChunk c s) = effects s @ mid \<and> (\<forall>e \<in> set mid. \<exists>i. e = SetCurrNodeId i))"
  by (auto simp: onChunk_def setCurrNodeId_def split: option.splits)

lemma fold_onChunk_keeps:
  "textarea_value (fold onChunk chunks s) = textarea_value s \<and>
   extraContext_items (fold onChunk chunks s) = extraContext_items s \<and>
   (\<exists>mid. effects (fold onChunk chunks s) = effects s @ mid \<and>
      (\<forall>e \<in> set mid. \<exists>i. e = SetCurrNodeId i))"
proof (induction chunks arbitrary: s)
  case Nil
  then show ?case by simp
next
  case (Cons c chunks)
  from onChunk_keeps [of c s] obtain mid1 where
    one: "textarea_value (onChunk c s) = textarea_value s"
      "extraContext_items (onChunk c s) = extraContext_items s"
      "effects (onChunk c s) = effects s @ mid1" "\<forall>e \<in> set mid1. \<exists>i. e = SetCurrNodeId i"
    by blast
  from Cons.IH [of "onChunk c s"] obtain mid2 where
    rest: "textarea_value (fold onChunk chunks (onChunk c s)) = textarea_value (onChunk c s)"
      "extraContext_items (fold onChunk chunks (onChunk c s)) = extraContext_items (onChunk c s)"
      "effects (fold onChunk chunks (onChunk c s)) = effects (onChunk c s) @ mid2"
      "\<forall>e \<in> set mid2. \<exists>i. e = SetCurrNodeId i"
    by blast
  have "effects (fold onChunk (c # chunks) s) = effects s @ (mid1 @ mid2)"
    using one(3) rest(3) by simp
  moreover have "\<forall>e \<in> set (mid1 @ mid2). \<exists>i. e = SetCurrNodeId i"
    using one(4) rest(4) by auto
  ultimately show ?case using one(1,2) rest(1,2) by (simp del: append_assoc)
qed

text \<open>
  C10: when the draft is not blank and nothing is generating, \<^verbatim>\<open>sendNewMessage\<close> first
  empties the textarea, then calls \<^verbatim>\<open>sendMessage\<close> with the draft and the attachment
  items; when \<^verbatim>\<open>sendMessage\<close> reports failure the textarea gets the draft back, when it
  reports success the textarea stays empty; in both cases the attachment items are cleared
  as the last step.
\<close>

theorem failed_send_restores_draft:
  assumes "length (trim (textarea_value s)) \<noteq> 0" and "\<not> busy (orEmpty convId)"
    and "send convId (lastMsgId messages) (textarea_value s) (extraContext_items s)
           = (sent, chunks)"
  shows "textarea_value (sendNewMessage busy send convId messages s)
           = (if sent then [] else textarea_value s) \<and>
         extraContext_items (sendNewMessage busy send convId messages s) = [] \<and>
         (\<exists>mid. effects (sendNewMessage busy send convId messages s) =
            effects s @
            [SetValue [], ScrollToBottom, SetCurrNodeId (- 1),
             SendMessage convId (lastMsgId messages) (textarea_value s) (extraContext_items s)] @
            mid @ (if sent then [] else [SetValue (textarea_value s)]) @ [ClearItems] \<and>
            (\<forall>e \<in> set mid. \<exists>i. e = SetCurrNodeId i))"
proof -
  let ?s3 = "setCurrNodeId (- 1) (scrollToBottom (setValue [] s))"
  let ?send = "SendMessage convId (lastMsgId messages) (textarea_value s) (extraContext_items s)"
  let ?s4 = "?s3\<lparr>effects := effects ?s3 @ [?send]\<rparr>"
  let ?s5 = "fold onChunk chunks ?s4"
  let ?s6 = "if \<not> sent then setValue (textarea_value s) ?s5 else ?s5"
  have items3: "extraContext_items ?s3 = extraContext_items s"
    by (simp add: setCurrNodeId_def scrollToBottom_def setValue_def)
  have run: "sendNewMessage busy send convId messages s = clearItems ?s6"
    using assms by (simp add: sendNewMessage_def Let_def items3)
  from fold_onChunk_keeps [of chunks ?s4] obtain mid where
    s5: "textarea_value ?s5 = textarea_value ?s4"
      "extraContext_items ?s5 = extraContext_items ?s4"
      "effects ?s5 = effects ?s4 @ mid" "\<forall>e \<in> set mid. \<exists>i. e = SetCurrNodeId i"
    by blast
  have s4: "textarea_value ?s4 = []"
    "effects ?s4 = effects s @ [SetValue [], ScrollToBottom, SetCurrNodeId (- 1), ?send]"
    by (simp_all add: setCurrNodeId_def scrollToBottom_def setValue_def)
  have draft: "textarea_value (clearItems ?s6) = (if sent then [] else textarea_value s)"
    using s5(1) s4(1) by (simp add: clearItems_def setValue_def)
  have items: "extraContext_items (clearItems ?s6) = []"
    by (simp add: clearItems_def)
  have eff: "effects (clearItems ?s6) =
      effects s @ [SetValue [], ScrollToBottom, SetCurrNodeId (- 1), ?send] @
      mid @ (if sent then [] else [SetValue (textarea_value s)]) @ [ClearItems]"
    using s5(3) s4(2) by (simp add: clearItems_def setValue_def)
  from draft items eff s5(4) show ?thesis unfolding run by blast
qed

lemma trim_draft: "trim ''hi there'' = ''hi there''"
  by (simp add: trim_def isWhiteSpace_def)

theorem failed_send_restores_draft_witness:
  "length (trim (textarea_value draftScreen)) \<noteq> 0 \<and> \<not> (\<lambda>c. False) (orEmpty (Some ''c1'')) \<and>
   failingSend (Some ''c1'') (lastMsgId []) (textarea_value draftScreen)
      (extraContext_items draftScreen) = (False, [Some 5]) \<and>
   textarea_value (sendNewMessage (\<lambda>c. False) failingSend (Some ''c1'') [] draftScreen)
     = ''hi there'' \<and>
   extraContext_items (sendNewMessage (\<lambda>c. False) failingSend (Some ''c1'') [] draftScreen) = []"
proof -
  have a: "length (trim (textarea_value draftScreen)) \<noteq> 0"
    by (simp add: draftScreen_def trim_draft)
  have b: "\<not> (\<lambda>c. False) (orEmpty (Some ''c1''))" by simp
  have c: "failingSend (Some ''c1'') (lastMsgId []) (textarea_value draftScreen)
      (extraContext_items draftScreen) = (False, [Some 5])"
    by (simp add: failingSend_def)
  from failed_send_restores_draft [where busy = "\<lambda>c. False" and send = failingSend
      and messages = "[]" and s = draftScreen and convId = "Some ''c1''", OF a b c]
  have "textarea_value (sendNewMessage (\<lambda>c. False) failingSend (Some ''c1'') [] draftScreen)
     = ''hi there'' \<and>
   extraContext_items (sendNewMessage (\<lambda>c. False) failingSend (Some ''c1'') [] draftScreen) = []"
    by (simp add: draftScreen_def)
  with a c show ?thesis by simp
qed

section \<open>The message store\<close>

lemma nodeMap_map:
  assumes "\<And>m. msg_id (f m) = msg_id m"
  shows "nodeMap (map f msgs) i = map_option f (nodeMap msgs i)"
proof (induction msgs rule: rev_induct)
  case Nil
  then show ?case by (simp add: nodeMap_def)
next
  case (snoc m msgs)
  then show ?case using assms by (simp add: nodeMap_snoc)
qed

lemma nodeMap_absent: "i \<notin> msg_id ` set msgs \<Longrightarrow> nodeMap msgs i = None"
  using nodeMap_key [of msgs i] by (cases "nodeMap msgs i") auto

lemma appendMsg_nodeMap:
  assumes "nodeMap msgs parentId = Some P" and "msg_id node \<noteq> parentId"
  shows "\<exists>msgs'. appendMsg msgs parentId node = Inr msgs' \<and>
           (\<forall>m \<in> set msgs. msg_id m \<noteq> parentId \<longrightarrow> m \<in> set msgs') \<and>
           last msgs' = node\<lparr>parent := Some parentId\<rparr> \<and>
           nodeMap msgs' = (nodeMap msgs)
             (parentId \<mapsto> P\<lparr>children := children P @ [msg_id node]\<rparr>,
              msg_id node \<mapsto> node\<lparr>parent := Some parentId\<rparr>)"
proof -
  let ?f = "\<lambda>m. if msg_id m = parentId then m\<lparr>children := children m @ [msg_id node]\<rparr> else m"
  let ?msgs' = "map ?f msgs @ [node\<lparr>parent := Some parentId\<rparr>]"
  have run: "appendMsg msgs parentId node = Inr ?msgs'"
    using assms(1) by (simp add: appendMsg_def)
  have ids: "msg_id (?f m) = msg_id m" for m by simp
  have mapped: "nodeMap (map ?f msgs) i =
      ((nodeMap msgs)(parentId \<mapsto> P\<lparr>children := children P @ [msg_id node]\<rparr>)) i" for i
  proof (cases "i = parentId")
    case True
    with assms(1) nodeMap_key [OF assms(1)] show ?thesis
      by (simp add: nodeMap_map [of ?f, OF ids])
  next
    case False
    show ?thesis
    proof (cases "nodeMap msgs i")
      case None
      with False show ?thesis by (simp add: nodeMap_map [of ?f, OF ids])
    next
      case (Some m)
      with nodeMap_key [OF Some] False show ?thesis
        by (simp add: nodeMap_map [of ?f, OF ids])
    qed
  qed
  have members: "\<forall>m \<in> set msgs. msg_id m \<noteq> parentId \<longrightarrow> m \<in> set ?msgs'"
    by (auto simp: image_iff intro!: bexI)
  have "nodeMap ?msgs' = (nodeMap msgs)
             (parentId \<mapsto> P\<lparr>children := children P @ [msg_id node]\<rparr>,
              msg_id node \<mapsto> node\<lparr>parent := Some parentId\<rparr>)"
    by (rule ext) (simp add: nodeMap_snoc mapped)
  with run members show ?thesis by simp
qed


section \<open>The streaming assembler\<close>

lemma start_fresh:
  "\<not> isGenerating ctl c \<Longrightarrow>
   start ctl c parentId promptContent extraItems =
     (Inr (next_id ctl),
      ctl\<lparr>assemblers := assemblers ctl @
             [\<lparr>asm_conv = c, asm_phase = Streaming, asm_parent = parentId,
               asm_pending = \<lparr>msg_id = next_id ctl, parent = Some parentId, children = [],
                               msg_type = AssistantTurn, content = [], extra = []\<rparr>\<rparr>],
           next_id := next_id ctl + 1\<rparr>)"
  by (simp add: start_def Let_def)

lemma find_only_last:
  "\<not> list_ex P xs \<Longrightarrow> P a \<Longrightarrow> find P (xs @ [a]) = Some a"
  by (induction xs) auto

lemma map_none: "\<not> list_ex P xs \<Longrightarrow> map (\<lambda>x. if P x then f x else x) xs = xs"
  by (induction xs) auto

lemma map_only_last:
  "\<not> list_ex P xs \<Longrightarrow> P a \<Longrightarrow> map (\<lambda>x. if P x then f x else x) (xs @ [a]) = xs @ [f a]"
  by (simp add: map_none)

lemma chunk_last:
  assumes "assemblers ctl = others @ [a]" and "\<not> list_ex (streaming c) others"
    and "streaming c a"
  shows "chunk ctl c delta =
           (Some (msg_id (asm_pending a)), ctl\<lparr>assemblers := others @ [addDelta delta a]\<rparr>)"
  using assms by (simp add: chunk_def find_only_last map_none)

lemma addDelta_keeps:
  "streaming c (addDelta delta a) = streaming c a"
  "asm_parent (addDelta delta a) = asm_parent a"
  "asm_pending (addDelta delta a) = (asm_pending a)\<lparr>content := content (asm_pending a) @ delta\<rparr>"
  by (simp_all add: addDelta_def streaming_def)

lemma chunks_last:
  assumes "\<not> list_ex (streaming c) others"
  shows "assemblers ctl = others @ [a] \<Longrightarrow> streaming c a \<Longrightarrow>
    \<exists>a'. fold (\<lambda>d k. snd (chunk k c d)) deltas ctl = ctl\<lparr>assemblers := others @ [a']\<rparr> \<and>
      streaming c a' \<and> asm_parent a' = asm_parent a \<and>
      asm_pending a' = (asm_pending a)\<lparr>content := content (asm_pending a) @ concat deltas\<rparr>"
proof (induction deltas arbitrary: ctl a)
  case Nil
  then show ?case by (intro exI [of _ a]) simp
next
  case (Cons d deltas)
  let ?ctl1 = "ctl\<lparr>assemblers := others @ [addDelta d a]\<rparr>"
  have one: "snd (chunk ctl c d) = ?ctl1"
    using chunk_last [OF Cons.prems(1) assms Cons.prems(2)] by simp
  have "assemblers ?ctl1 = others @ [addDelta d a]" by simp
  moreover have "streaming c (addDelta d a)" using Cons.prems(2) by (simp add: addDelta_keeps)
  ultimately obtain a' where
    a': "fold (\<lambda>d k. snd (chunk k c d)) deltas ?ctl1 = ?ctl1\<lparr>assemblers := others @ [a']\<rparr>"
      "streaming c a'" "asm_parent a' = asm_parent (addDelta d a)"
      "asm_pending a' = (asm_pending (addDelta d a))
          \<lparr>content := content (asm_pending (addDelta d a)) @ concat deltas\<rparr>"
    using Cons.IH by blast
  from a' one show ?case
    by (intro exI [of _ a']) (simp add: addDelta_keeps)
qed

lemma promote_last:
  assumes "assemblers ctl = others @ [a]" and "\<not> list_ex (streaming c) others"
    and "streaming c a"
    and "appendMsg (store ctl c) (asm_parent a) (asm_pending a) = Inr msgs"
  shows "promote final ctl c =
           Inr (ctl\<lparr>store := (store ctl)(c := msgs),
                    assemblers := others @ [a\<lparr>asm_phase := final\<rparr>]\<rparr>)"
proof -
  have "map (endPhase c final) others = others"
    using map_none [OF assms(2), of "\<lambda>x. x\<lparr>asm_phase := final\<rparr>"]
    by (simp add: endPhase_def [abs_def])
  moreover have "endPhase c final a = a\<lparr>asm_phase := final\<rparr>"
    using assms(3) by (simp add: endPhase_def)
  ultimately show ?thesis using assms by (simp add: promote_def find_only_last)
qed

lemma ended_not_generating:
  "\<not> list_ex (streaming c) others \<Longrightarrow> final \<noteq> Streaming \<Longrightarrow>
   \<not> isGenerating (ctl\<lparr>assemblers := others @ [a\<lparr>asm_phase := final\<rparr>]\<rparr>) c"
  by (simp add: isGenerating_def streaming_def)


lemma stream_promoted:
  assumes "\<not> isGenerating ctl c" and "nodeMap (store ctl c) parentId = Some P"
    and "final \<noteq> Streaming"
  shows "\<exists>ctl' msgs'.
     promote final
       (fold (\<lambda>d k. snd (chunk k c d)) deltas (snd (start ctl c parentId promptContent extraItems)))
       c = Inr ctl' \<and>
     appendMsg (store ctl c) parentId
       \<lparr>msg_id = next_id ctl, parent = Some parentId, children = [], msg_type = AssistantTurn,
        content = concat deltas, extra = []\<rparr> = Inr msgs' \<and>
     store ctl' = (store ctl)(c := msgs') \<and> next_id ctl' = next_id ctl + 1 \<and>
     notified ctl' = notified ctl \<and> \<not> isGenerating ctl' c"
proof -
  let ?a = "\<lparr>asm_conv = c, asm_phase = Streaming, asm_parent = parentId,
             asm_pending = \<lparr>msg_id = next_id ctl, parent = Some parentId, children = [],
                             msg_type = AssistantTurn, content = [], extra = []\<rparr>\<rparr>"
  let ?ctl1 = "ctl\<lparr>assemblers := assemblers ctl @ [?a], next_id := next_id ctl + 1\<rparr>"
  let ?node = "\<lparr>msg_id = next_id ctl, parent = Some parentId, children = [],
                msg_type = AssistantTurn, content = concat deltas, extra = []\<rparr>"
  have started: "snd (start ctl c parentId promptContent extraItems) = ?ctl1"
    using assms(1) by (simp add: start_fresh)
  have quiet: "\<not> list_ex (streaming c) (assemblers ctl)"
    using assms(1) by (simp add: isGenerating_def)
  have active: "streaming c ?a" by (simp add: streaming_def)
  have "assemblers ?ctl1 = assemblers ctl @ [?a]" by simp
  from chunks_last [OF quiet this active, of deltas] obtain a' where
    fed: "fold (\<lambda>d k. snd (chunk k c d)) deltas ?ctl1
            = ?ctl1\<lparr>assemblers := assemblers ctl @ [a']\<rparr>" and
    a': "streaming c a'" "asm_parent a' = parentId" "asm_pending a' = ?node"
    by auto
  let ?ctl2 = "?ctl1\<lparr>assemblers := assemblers ctl @ [a']\<rparr>"
  from assms(2) obtain msgs' where
    app: "appendMsg (store ctl c) parentId ?node = Inr msgs'"
    by (auto simp: appendMsg_def)
  have asm2: "assemblers ?ctl2 = assemblers ctl @ [a']" by simp
  have app2: "appendMsg (store ?ctl2 c) (asm_parent a') (asm_pending a') = Inr msgs'"
    using app a' by simp
  have
    "promote final ?ctl2 c =
       Inr (?ctl2\<lparr>store := (store ?ctl2)(c := msgs'),
                  assemblers := assemblers ctl @ [a'\<lparr>asm_phase := final\<rparr>]\<rparr>)"
    by (rule promote_last [OF asm2 quiet a'(1) app2])
  moreover have "\<not> isGenerating
      (?ctl2\<lparr>store := (store ?ctl2)(c := msgs'),
             assemblers := assemblers ctl @ [a'\<lparr>asm_phase := final\<rparr>]\<rparr>) c"
    using quiet assms(3) by (simp add: isGenerating_def streaming_def)
  ultimately show ?thesis using app started fed by simp
qed

lemma fail_keeps_store: "store (fail ctl c reason) = store ctl"
  by (simp add: fail_def)

lemma chunk_keeps_store: "store (snd (chunk ctl c d)) = store ctl"
  by (simp add: chunk_def)

lemma chunks_keep_store: "store (fold (\<lambda>d k. snd (chunk k c d)) deltas ctl) = store ctl"
  by (induction deltas arbitrary: ctl) (simp_all add: chunk_keeps_store)

lemma start_keeps_store: "store (snd (start ctl c parentId promptContent extraItems)) = store ctl"
  by (simp add: start_def Let_def)

text \<open>
  C5: a stream that is cancelled after its chunks have arrived ends like a committed one.
  The pending node, with the concatenation of the chunks as content, is appended to the store
  as the last child of its parent; no error is notified and the conversation is no longer
  generating. Committing in place of cancelling gives the same store and the same
  notifications, whereas failing leaves the store as it was before the start.
\<close>

theorem cancel_commits_partial_content:
  assumes "\<not> isGenerating ctl c" and "nodeMap (store ctl c) parentId = Some P"
    and "\<forall>m \<in> set (store ctl c). msg_id m < next_id ctl"
  shows "\<exists>ctl'.
     cancel (fold (\<lambda>d k. snd (chunk k c d)) deltas
               (snd (start ctl c parentId promptContent extraItems))) c = Inr ctl' \<and>
     last (store ctl' c) =
       \<lparr>msg_id = next_id ctl, parent = Some parentId, children = [], msg_type = AssistantTurn,
        content = concat deltas, extra = []\<rparr> \<and>
     nodeMap (store ctl' c) (next_id ctl) =
       Some \<lparr>msg_id = next_id ctl, parent = Some parentId, children = [],
             msg_type = AssistantTurn, content = concat deltas, extra = []\<rparr> \<and>
     nodeMap (store ctl' c) parentId = Some (P\<lparr>children := children P @ [next_id ctl]\<rparr>) \<and>
     notified ctl' = notified ctl \<and> \<not> isGenerating ctl' c \<and>
     (\<exists>ctlc. commit (fold (\<lambda>d k. snd (chunk k c d)) deltas
                 (snd (start ctl c parentId promptContent extraItems))) c = Inr ctlc \<and>
        store ctlc = store ctl' \<and> notified ctlc = notified ctl') \<and>
     store (fail (fold (\<lambda>d k. snd (chunk k c d)) deltas
                   (snd (start ctl c parentId promptContent extraItems))) c reason) = store ctl"
proof -
  let ?node = "\<lparr>msg_id = next_id ctl, parent = Some parentId, children = [],
                msg_type = AssistantTurn, content = concat deltas, extra = []\<rparr>"
  let ?fed = "fold (\<lambda>d k. snd (chunk k c d)) deltas
               (snd (start ctl c parentId promptContent extraItems))"
  from stream_promoted [OF assms(1,2), of Cancelled deltas promptContent extraItems]
  obtain ctl' msgs' where
    cancelled: "cancel ?fed c = Inr ctl'" and
    app: "appendMsg (store ctl c) parentId ?node = Inr msgs'" and
    st: "store ctl' = (store ctl)(c := msgs')" and
    quiet: "notified ctl' = notified ctl" "\<not> isGenerating ctl' c"
    by (auto simp: cancel_def)
  from stream_promoted [OF assms(1,2), of Committed deltas promptContent extraItems] app
  obtain ctlc where
    committed: "commit ?fed c = Inr ctlc" "store ctlc = (store ctl)(c := msgs')"
      "notified ctlc = notified ctl"
    by (auto simp: commit_def)
  from nodeMap_key [OF assms(2)] assms(3) have fresh: "msg_id ?node \<noteq> parentId" by auto
  from appendMsg_nodeMap [OF assms(2) fresh] app have
    lastnode: "last msgs' = ?node" and
    nm: "nodeMap msgs' = (nodeMap (store ctl c))
           (parentId \<mapsto> P\<lparr>children := children P @ [next_id ctl]\<rparr>, next_id ctl \<mapsto> ?node)"
    by auto
  have failed: "store (fail ?fed c reason) = store ctl"
    by (simp add: fail_keeps_store chunks_keep_store start_keeps_store)
  from fresh have "parentId \<noteq> next_id ctl" by simp
  with cancelled st quiet committed lastnode nm failed show ?thesis by simp
qed

lemma ctl3_ready:
  "\<not> isGenerating ctl3 ''c1''" "nodeMap (store ctl3 ''c1'') 1 = Some user1"
  "\<forall>m \<in> set (store ctl3 ''c1''). msg_id m < next_id ctl3"
  by (simp_all add: ctl3_def isGenerating_def nodeMap_chat3)
     (simp add: chat3_def root0_def user1_def assistant2_def)

theorem cancel_commits_partial_content_witness:
  "\<not> isGenerating ctl3 ''c1'' \<and> nodeMap (store ctl3 ''c1'') 1 = Some user1 \<and>
   list_all (\<lambda>m. msg_id m < next_id ctl3) (store ctl3 ''c1'') \<and>
   (\<exists>ctl'. cancel (fold (\<lambda>d k. snd (chunk k ''c1'' d)) [''Hel'', ''lo'']
                    (snd (start ctl3 ''c1'' 1 ''hi'' []))) ''c1'' = Inr ctl' \<and>
      last (store ctl' ''c1'') =
        \<lparr>msg_id = 3, parent = Some 1, children = [], msg_type = AssistantTurn,
         content = ''Hello'', extra = []\<rparr>)"
proof -
  have three: "next_id ctl3 = 3" by (simp add: ctl3_def)
  from cancel_commits_partial_content [OF ctl3_ready, of "[''Hel'', ''lo'']" "''hi''" "[]"]
  have "\<exists>ctl'. cancel (fold (\<lambda>d k. snd (chunk k ''c1'' d)) [''Hel'', ''lo'']
                    (snd (start ctl3 ''c1'' 1 ''hi'' []))) ''c1'' = Inr ctl' \<and>
      last (store ctl' ''c1'') =
        \<lparr>msg_id = 3, parent = Some 1, children = [], msg_type = AssistantTurn,
         content = ''Hello'', extra = []\<rparr>"
    unfolding three by auto
  with ctl3_ready show ?thesis by (simp add: list_all_iff)
qed

section \<open>The generation controller\<close>

lemma filter_map_same:
  "(\<And>a. P (g a) = P a) \<Longrightarrow> length (filter P (map g xs)) = length (filter P xs)"
  by (induction xs) auto

lemma filter_map_fewer:
  "(\<And>a. P (g a) \<Longrightarrow> P a) \<Longrightarrow> length (filter P (map g xs)) \<le> length (filter P xs)"
  by (induction xs) (auto simp: le_SucI)

lemma streaming_addDelta: "streaming c' (if streaming c a then addDelta d a else a) = streaming c' a"
  by (simp add: addDelta_keeps)

lemma streaming_endPhase:
  "final \<noteq> Streaming \<Longrightarrow> streaming c' (endPhase c final a) \<Longrightarrow> streaming c' a"
  by (auto simp: endPhase_def streaming_def split: if_splits)

lemma streams_start:
  "length (streams ctl c') \<le> 1 \<Longrightarrow>
   length (streams (snd (start ctl c parentId promptContent extraItems)) c') \<le> 1"
proof (cases "isGenerating ctl c")
  case True
  assume "length (streams ctl c') \<le> 1"
  with True show ?thesis by (simp add: start_def streams_def)
next
  case False
  assume one: "length (streams ctl c') \<le> 1"
  from False have "filter (streaming c) (assemblers ctl) = []"
    by (auto simp: isGenerating_def list_ex_iff filter_empty_conv)
  with one False show ?thesis
    by (cases "c' = c") (auto simp: start_fresh streams_def streaming_def)
qed

lemma streams_chunk:
  "length (streams (snd (chunk ctl c d)) c') = length (streams ctl c')"
  using filter_map_same [of "streaming c'" "\<lambda>a. if streaming c a then addDelta d a else a",
      OF streaming_addDelta]
  by (simp add: chunk_def streams_def del: filter_map)

lemma streams_promote:
  assumes "final \<noteq> Streaming" and "promote final ctl c = Inr ctl'"
  shows "length (streams ctl' c') \<le> length (streams ctl c')"
proof (cases "find (streaming c) (assemblers ctl)")
  case None
  with assms(2) show ?thesis by (simp add: promote_def)
next
  case (Some a)
  with assms(2) have "assemblers ctl' = map (endPhase c final) (assemblers ctl)"
    by (auto simp: promote_def split: sum.splits)
  with filter_map_fewer [of "streaming c'" "endPhase c final", OF streaming_endPhase [OF assms(1)]]
  show ?thesis by (simp add: streams_def del: filter_map)
qed

lemma streams_fail: "length (streams (fail ctl c reason) c') \<le> length (streams ctl c')"
proof -
  have "streaming c' (endPhase c Failed a) \<Longrightarrow> streaming c' a" for a
    by (rule streaming_endPhase [of Failed]) simp_all
  then have "length (filter (streaming c') (map (endPhase c Failed) (assemblers ctl)))
               \<le> length (filter (streaming c') (assemblers ctl))"
    by (rule filter_map_fewer)
  then show ?thesis by (simp add: fail_def streams_def del: filter_map)
qed

lemma streams_step: "length (streams ctl c') \<le> 1 \<Longrightarrow> length (streams (step e ctl) c') \<le> 1"
proof (cases e)
  case (Start c parentId promptContent extraItems)
  assume "length (streams ctl c') \<le> 1"
  then have "length (streams (snd (start ctl c parentId promptContent extraItems)) c') \<le> 1"
    by (rule streams_start)
  with Start show ?thesis by simp
next
  case (Chunk c d)
  assume "length (streams ctl c') \<le> 1"
  with Chunk show ?thesis by (simp add: streams_chunk)
next
  case (Commit c)
  assume one: "length (streams ctl c') \<le> 1"
  show ?thesis
  proof (cases "commit ctl c")
    case (Inl err)
    with Commit one show ?thesis by simp
  next
    case (Inr ctl')
    then have "length (streams ctl' c') \<le> length (streams ctl c')"
      unfolding commit_def by (intro streams_promote [of Committed]) simp_all
    with Commit Inr one show ?thesis by simp
  qed
next
  case (Cancel c)
  assume one: "length (streams ctl c') \<le> 1"
  show ?thesis
  proof (cases "cancel ctl c")
    case (Inl err)
    with Cancel one show ?thesis by simp
  next
    case (Inr ctl')
    then have "length (streams ctl' c') \<le> length (streams ctl c')"
      unfolding cancel_def by (intro streams_promote [of Cancelled]) simp_all
    with Cancel Inr one show ?thesis by simp
  qed
next
  case (Fail c reason)
  assume "length (streams ctl c') \<le> 1"
  with Fail streams_fail [of ctl c reason c'] show ?thesis by simp
qed

lemma streams_run:
  "\<forall>c'. length (streams ctl c') \<le> 1 \<Longrightarrow> \<forall>c'. length (streams (fold step evs ctl) c') \<le> 1"
proof (induction evs arbitrary: ctl)
  case Nil
  then show ?case by simp
next
  case (Cons e evs)
  have "\<forall>c'. length (streams (step e ctl) c') \<le> 1"
    using Cons.prems streams_step by blast
  from Cons.IH [OF this] show ?case by simp
qed

lemma generating_after_start:
  "isGenerating (snd (start ctl c parentId promptContent extraItems)) c"
  by (cases "isGenerating ctl c")
     (simp_all add: start_def Let_def isGenerating_def streaming_def)

lemma generating_step:
  assumes "isGenerating ctl c" and "\<not> ends_stream c e"
  shows "isGenerating (step e ctl) c"
proof -
  from assms(1) obtain a where a: "a \<in> set (assemblers ctl)" "streaming c a"
    by (auto simp: isGenerating_def list_ex_iff)
  have kept: "endPhase c' final a = a" if "c' \<noteq> c" for c' final
    using a(2) that by (simp add: endPhase_def streaming_def)
  have promoted: "isGenerating ctl' c" if "promote final ctl c' = Inr ctl'" "c' \<noteq> c"
    for final c' ctl'
  proof (cases "find (streaming c') (assemblers ctl)")
    case None
    with that assms(1) show ?thesis by (simp add: promote_def)
  next
    case (Some b)
    with that(1) have "assemblers ctl' = map (endPhase c' final) (assemblers ctl)"
      by (auto simp: promote_def split: sum.splits)
    moreover have "endPhase c' final a \<in> set (map (endPhase c' final) (assemblers ctl))"
      using a(1) by simp
    ultimately show ?thesis using kept [OF that(2)] a(2)
      by (auto simp: isGenerating_def list_ex_iff)
  qed
  show ?thesis
  proof (cases e)
    case (Start c' parentId promptContent extraItems)
    with assms(1) show ?thesis
      by (cases "isGenerating ctl c'")
         (auto simp: start_def Let_def isGenerating_def)
  next
    case (Chunk c' d)
    have "(if streaming c' a then addDelta d a else a)
            \<in> set (map (\<lambda>a. if streaming c' a then addDelta d a else a) (assemblers ctl))"
      using a(1) by (simp add: image_iff) blast
    moreover have "streaming c (if streaming c' a then addDelta d a else a)"
      using a(2) by (simp add: addDelta_keeps)
    ultimately show ?thesis using Chunk
      by (auto simp: chunk_def isGenerating_def list_ex_iff)
  next
    case (Commit c')
    with assms(2) have "c' \<noteq> c" by simp
    with Commit assms(1) promoted [of Committed c'] show ?thesis
      by (cases "commit ctl c'") (simp_all add: commit_def)
  next
    case (Cancel c')
    with assms(2) have "c' \<noteq> c" by simp
    with Cancel assms(1) promoted [of Cancelled c'] show ?thesis
      by (cases "cancel ctl c'") (simp_all add: cancel_def)
  next
    case (Fail c' reason)
    with assms(2) have other: "c' \<noteq> c" by simp
    have "endPhase c' Failed a \<in> set (map (endPhase c' Failed) (assemblers ctl))"
      using a(1) by simp
    with kept [OF other] a(2) Fail assms(1) show ?thesis
      by (auto simp: fail_def isGenerating_def list_ex_iff)
  qed
qed

lemma generating_run:
  "isGenerating ctl c \<Longrightarrow> \<forall>e \<in> set evs. \<not> ends_stream c e \<Longrightarrow>
   isGenerating (fold step evs ctl) c"
  by (induction evs arbitrary: ctl) (simp_all add: generating_step)


text \<open>
  C4: from a state with at most one streaming assembler per conversation (the state without
  assemblers is one), every run of events leads to such a state. After a start for a
  conversation, and any events that do not commit, cancel or fail the stream of that
  conversation, a further start for it is rejected with \<open>AlreadyGenerating\<close>: store,
  assemblers and id counter stay as they are, and the user is notified. On the screen,
  \<^verbatim>\<open>sendNewMessage\<close> for that conversation shows an error toast and does nothing else.
\<close>

theorem second_start_rejected:
  assumes "\<forall>c'. length (streams ctl c') \<le> 1" and "\<forall>e \<in> set evs. \<not> ends_stream c e"
  shows "(\<forall>later c'. length (streams (fold step later ctl) c') \<le> 1) \<and>
    start (fold step evs (snd (start ctl c parentId promptContent extraItems))) c
        parentId' promptContent' extraItems' =
      (Inl AlreadyGenerating,
       (fold step evs (snd (start ctl c parentId promptContent extraItems)))
         \<lparr>notified :=
            notified (fold step evs (snd (start ctl c parentId promptContent extraItems)))
              @ [AlreadyGenerating]\<rparr>) \<and>
    sendNewMessage
        (isGenerating (fold step evs (snd (start ctl c parentId promptContent extraItems))))
        send (Some c) messages s =
      toast_error ''Please enter a message'' s"
proof -
  let ?ctl2 = "fold step evs (snd (start ctl c parentId promptContent extraItems))"
  have inv: "\<forall>later c'. length (streams (fold step later ctl) c') \<le> 1"
    using streams_run [OF assms(1)] by blast
  have busy: "isGenerating ?ctl2 c"
    using generating_after_start assms(2) by (rule generating_run)
  then have rejected: "start ?ctl2 c parentId' promptContent' extraItems' =
      (Inl AlreadyGenerating, ?ctl2\<lparr>notified := notified ?ctl2 @ [AlreadyGenerating]\<rparr>)"
    by (simp add: start_def)
  from busy have "sendNewMessage (isGenerating ?ctl2) send (Some c) messages s =
      toast_error ''Please enter a message'' s"
    by (simp add: sendNewMessage_def orEmpty_def)
  with inv rejected show ?thesis by blast
qed

theorem second_start_rejected_witness:
  "(\<forall>c'. length (streams ctl3 c') \<le> 1) \<and>
   list_all (\<lambda>e. \<not> ends_stream ''c1'' e)
     [Chunk ''c1'' ''Hel'', Start ''c2'' 0 ''x'' [], Commit ''c2''] \<and>
   fst (start (fold step [Chunk ''c1'' ''Hel'', Start ''c2'' 0 ''x'' [], Commit ''c2'']
                (snd (start ctl3 ''c1'' 1 ''hi'' []))) ''c1'' 1 ''again'' [])
     = Inl AlreadyGenerating"
proof -
  have a: "\<forall>c'. length (streams ctl3 c') \<le> 1" by (simp add: streams_def ctl3_def)
  have b: "\<forall>e \<in> set [Chunk ''c1'' ''Hel'', Start ''c2'' 0 ''x'' [], Commit ''c2''].
      \<not> ends_stream ''c1'' e" by simp
  from second_start_rejected [OF a b, of 1 "''hi''" "[]" 1 "''again''" "[]"]
  have "fst (start (fold step [Chunk ''c1'' ''Hel'', Start ''c2'' 0 ''x'' [], Commit ''c2'']
                (snd (start ctl3 ''c1'' 1 ''hi'' []))) ''c1'' 1 ''again'' [])
     = Inl AlreadyGenerating"
    by simp
  with a show ?thesis by simp
qed

section \<open>Edit and regenerate\<close>

















end
